theory Spec2Isabelle
  imports Main "HOL-Library.AList"
begin

section \<open>Data model of the rule analyzer (rule_analyzer/translator.py)\<close>

text \<open>
  An argument object carries a type tag (\<open>arg.type\<close>: \<open>variable\<close>, \<open>constant\<close>,
  \<open>aggregation\<close>, \<open>math_expr\<close>) and a name (\<open>arg.name\<close>): the variable name, or the
  literal text of a constant. An atom is a dict with the keys \<open>name\<close> and \<open>arg_list\<close>.
\<close>

record arg =
  arg_type :: string
  arg_name :: string

record atom =
  name :: string
  arg_list :: "arg list"

text \<open>The exceptions the analysed functions can raise.\<close>

datatype py_error =
    KeyError string
  | TypeError
  | ValueError string
  | IndexError
  | Exception string

text \<open>
  Python dicts (\<open>dict\<close>, \<open>collections.OrderedDict\<close>) keep their keys in insertion order.
  They are association lists with distinct keys here: \<open>k in d\<close> is
  \<open>map_of d k \<noteq> None\<close>, \<open>d[k]\<close> is \<open>map_of d k\<close> (a \<open>KeyError\<close> when it is
  \<open>None\<close>), \<open>d[k] = v\<close> is \<open>AList.update k v d\<close>, which overwrites in place or appends
  a new key at the end, and \<open>for k in d\<close> runs through the list in order.
\<close>

type_synonym atom_index_to_arg_index_map = "(nat \<times> nat list) list"
type_synonym variable_arg_to_atom_map = "(string \<times> atom_index_to_arg_index_map) list"

text \<open>The dict \<open>{'atom_index': ..., 'arg_index': ...}\<close>.\<close>

record atom_arg_pair =
  atom_index :: nat
  arg_index :: nat

text \<open>A loop whose body can raise: the first error ends it.\<close>

fun fold_err :: "('a \<Rightarrow> 's \<Rightarrow> py_error + 's) \<Rightarrow> 'a list \<Rightarrow> 's \<Rightarrow> py_error + 's" where
  "fold_err f [] s = Inr s"
| "fold_err f (x # xs) s = (case f x s of Inl e \<Rightarrow> Inl e | Inr s' \<Rightarrow> fold_err f xs s')"

section \<open>Dicts of dicts of lists\<close>

text \<open>
  The idiom of lines 34 to 37 and of lines 202 to 205:
  \<^verbatim>\<open>if k1 not in m: m[k1] = dict()\<close>, then
  \<^verbatim>\<open>if k2 not in m[k1]: m[k1][k2] = list()\<close>.
  The \<open>None\<close> branch of the lookup cannot be reached: the key was just inserted.
\<close>

definition ensure_entry ::
  "'a \<Rightarrow> 'b \<Rightarrow> ('a \<times> ('b \<times> 'c list) list) list \<Rightarrow> ('a \<times> ('b \<times> 'c list) list) list" where
  "ensure_entry k1 k2 m =
     (let m1 = (if map_of m k1 = None then AList.update k1 [] m else m);
          inner = (case map_of m1 k1 of Some d \<Rightarrow> d | None \<Rightarrow> [])
      in if map_of inner k2 = None then AList.update k1 (AList.update k2 [] inner) m1 else m1)"

text \<open>
  \<^verbatim>\<open>m[k1][k2].append(x)\<close> (lines 38 and 219). It is only run after \<open>ensure_entry\<close>,
  where both keys exist; on a missing key the model leaves the dict as it is.
\<close>

definition push_entry ::
  "'a \<Rightarrow> 'b \<Rightarrow> 'c \<Rightarrow> ('a \<times> ('b \<times> 'c list) list) list \<Rightarrow> ('a \<times> ('b \<times> 'c list) list) list" where
  "push_entry k1 k2 x m =
     (case map_of m k1 of
        None \<Rightarrow> m
      | Some inner \<Rightarrow>
          (case map_of inner k2 of
             None \<Rightarrow> m
           | Some l \<Rightarrow> AList.update k1 (AList.update k2 (l @ [x]) inner) m))"

section \<open>Variable-occurrence indexer\<close>

text \<open>Lines 34 to 38, for one variable argument.\<close>

definition record_occurrence ::
  "string \<Rightarrow> nat \<Rightarrow> nat \<Rightarrow> variable_arg_to_atom_map \<Rightarrow> variable_arg_to_atom_map" where
  "record_occurrence var_name atom_idx arg_idx m =
     push_entry var_name atom_idx arg_idx (ensure_entry var_name atom_idx m)"

text \<open>The inner loop over \<open>range(atom_arg_num)\<close> (lines 30 to 38).\<close>

definition scan_atom_args ::
  "nat \<Rightarrow> arg list \<Rightarrow> variable_arg_to_atom_map \<Rightarrow> variable_arg_to_atom_map" where
  "scan_atom_args atom_idx atom_arg_list m =
     fold (\<lambda>arg_idx acc.
             let a = atom_arg_list ! arg_idx
             in if arg_type a \<noteq> ''variable'' then acc
                else record_occurrence (arg_name a) atom_idx arg_idx acc)
          [0..<length atom_arg_list] m"

text \<open>The outer loop over \<open>range(body_atom_num)\<close> (lines 24 to 40).\<close>

definition extract_variable_arg_to_atom_map :: "atom list \<Rightarrow> variable_arg_to_atom_map" where
  "extract_variable_arg_to_atom_map body_atoms =
     fold (\<lambda>atom_idx acc. scan_atom_args atom_idx (arg_list (body_atoms ! atom_idx)) acc)
          [0..<length body_atoms] []"

section \<open>Binding resolver\<close>

text \<open>
  The two nested \<open>for\<close> loops of lines 55 to 57 return at the first argument position
  they reach; an atom entry with an empty position list is passed over, and \<open>None\<close> is
  returned when no position is reached (line 59).
\<close>

fun first_atom_arg_pair :: "atom_index_to_arg_index_map \<Rightarrow> atom_arg_pair option" where
  "first_atom_arg_pair [] = None"
| "first_atom_arg_pair ((atom_idx, []) # rest) = first_atom_arg_pair rest"
| "first_atom_arg_pair ((atom_idx, arg_idx # _) # rest) =
     Some \<lparr>atom_index = atom_idx, arg_index = arg_idx\<rparr>"

text \<open>
  Line 53 subscripts the index with the name: a name that is not a key raises
  \<open>KeyError\<close> before the loops are reached.
\<close>

definition search_argument_mapping_in_body_atoms ::
  "variable_arg_to_atom_map \<Rightarrow> string \<Rightarrow> py_error + atom_arg_pair option" where
  "search_argument_mapping_in_body_atoms m var_name =
     (case map_of m var_name of
        None \<Rightarrow> Inl (KeyError var_name)
      | Some atom_index_to_arg_index_map \<Rightarrow>
          Inr (first_atom_arg_pair atom_index_to_arg_index_map))"

section \<open>Join planner\<close>

text \<open>
  Lines 148 to 156: the variable is in more than one atom, or one of its atoms holds it
  at more than one position. The loops run through the items of the dicts.
\<close>

definition join_on_var :: "atom_index_to_arg_index_map \<Rightarrow> bool" where
  "join_on_var d =
     (1 < length d \<or> list_ex (\<lambda>(atom_idx, positions). 1 < length positions) d)"

definition extract_join_map :: "variable_arg_to_atom_map \<Rightarrow> variable_arg_to_atom_map" where
  "extract_join_map m =
     fold (\<lambda>(var_name, d) join_map.
             if join_on_var d then AList.update var_name d join_map else join_map)
          m []"

section \<open>Comparison constraint extractor\<close>

text \<open>
  A comparison is a dict with the keys \<open>lhs\<close>, \<open>rhs\<close> and \<open>op\<close>; an operand is the pair of
  its text and its tag (\<open>var\<close> or \<open>num\<close>). The record built for a comparison
  (\<open>comparison_struct\<close>) has the keys \<open>numerical_value\<close> or \<open>other_side_atom_index\<close> and
  \<open>other_side_arg_index\<close> according to \<open>other_side_type\<close>; a key that is not set is
  \<open>None\<close>. Python's \<open>float\<close> is the parameter \<open>pyfloat\<close>, \<open>None\<close> where it raises
  \<open>ValueError\<close>.
\<close>

record comparison =
  lhs :: "string \<times> string"
  rhs :: "string \<times> string"
  op :: string

record 'f comparison_struct =
  base_variable_side :: string
  compare_op :: string
  other_side_type :: string
  numerical_value :: "'f option"
  other_side_atom_index :: "nat option"
  other_side_arg_index :: "nat option"

type_synonym 'f comparison_map = "(nat \<times> (nat \<times> 'f comparison_struct list) list) list"

text \<open>
  A call of the resolver whose result is subscripted (lines 198 to 201 and 213 to 217):
  subscripting \<open>None\<close> raises \<open>TypeError\<close>.
\<close>

definition search_and_subscript ::
  "variable_arg_to_atom_map \<Rightarrow> string \<Rightarrow> py_error + atom_arg_pair" where
  "search_and_subscript m var_name =
     (case search_argument_mapping_in_body_atoms m var_name of
        Inl e \<Rightarrow> Inl e
      | Inr None \<Rightarrow> Inl TypeError
      | Inr (Some p) \<Rightarrow> Inr p)"

text \<open>Lines 206 to 217: the record of the comparison.\<close>

definition build_comparison_struct ::
  "(string \<Rightarrow> 'f option) \<Rightarrow> variable_arg_to_atom_map \<Rightarrow> string \<Rightarrow> string \<Rightarrow> string \<Rightarrow> string
     \<Rightarrow> py_error + 'f comparison_struct" where
  "build_comparison_struct pyfloat m base_side comparison_op compare_arg compare_arg_type =
     (if compare_arg_type = ''num'' then
        (case pyfloat compare_arg of
           None \<Rightarrow> Inl (ValueError compare_arg)
         | Some x \<Rightarrow>
             Inr \<lparr>base_variable_side = base_side, compare_op = comparison_op,
                  other_side_type = ''num'', numerical_value = Some x,
                  other_side_atom_index = None, other_side_arg_index = None\<rparr>)
      else
        (case search_and_subscript m compare_arg of
           Inl e \<Rightarrow> Inl e
         | Inr other_side_atom_arg_indices \<Rightarrow>
             Inr \<lparr>base_variable_side = base_side, compare_op = comparison_op,
                  other_side_type = ''var'', numerical_value = None,
                  other_side_atom_index = Some (atom_index other_side_atom_arg_indices),
                  other_side_arg_index = Some (arg_index other_side_atom_arg_indices)\<rparr>))"

text \<open>
  Lines 187 to 196: the left operand is the base side whenever its tag is \<open>var\<close>; the
  other operand is the one compared with.
\<close>

definition base_side :: "comparison \<Rightarrow> string" where
  "base_side c = (if snd (lhs c) = ''var'' then ''l'' else ''r'')"

definition base_var :: "comparison \<Rightarrow> string" where
  "base_var c = (if snd (lhs c) = ''var'' then fst (lhs c) else fst (rhs c))"

definition compare_arg :: "comparison \<Rightarrow> string" where
  "compare_arg c = (if snd (lhs c) = ''var'' then fst (rhs c) else fst (lhs c))"

definition compare_arg_type :: "comparison \<Rightarrow> string" where
  "compare_arg_type c = (if snd (lhs c) = ''var'' then snd (rhs c) else snd (lhs c))"

text \<open>The body of the loop over the comparisons (lines 177 to 220).\<close>

definition comparison_step ::
  "(string \<Rightarrow> 'f option) \<Rightarrow> variable_arg_to_atom_map \<Rightarrow> comparison \<Rightarrow> 'f comparison_map
     \<Rightarrow> py_error + 'f comparison_map" where
  "comparison_step pyfloat m c comparison_map =
     (if snd (lhs c) \<noteq> ''var'' \<and> snd (rhs c) \<noteq> ''var'' then
        Inl (Exception
          ''At least one side of the comparison has to be variable in the body relations'')
      else
        (case search_and_subscript m (base_var c) of
           Inl e \<Rightarrow> Inl e
         | Inr arg_to_body_atom_arg_map \<Rightarrow>
             let mapped_atom_index = atom_index arg_to_body_atom_arg_map;
                 mapped_arg_index = arg_index arg_to_body_atom_arg_map;
                 comparison_map1 =
                   ensure_entry mapped_atom_index mapped_arg_index comparison_map
             in case build_comparison_struct pyfloat m (base_side c) (op c)
                       (compare_arg c) (compare_arg_type c) of
                  Inl e \<Rightarrow> Inl e
                | Inr comparison_struct \<Rightarrow>
                    Inr (push_entry mapped_atom_index mapped_arg_index
                           comparison_struct comparison_map1)))"

definition extract_comparison_map ::
  "(string \<Rightarrow> 'f option) \<Rightarrow> comparison list \<Rightarrow> variable_arg_to_atom_map
     \<Rightarrow> py_error + 'f comparison_map" where
  "extract_comparison_map pyfloat body_comparisons m =
     fold_err (comparison_step pyfloat m) body_comparisons []"

section \<open>Python's \<open>float\<close> (the call of line 210)\<close>

















section \<open>Negation and anti-join planner\<close>

text \<open>
  The entry \<open>{'arg_name': ..., 'arg_type': ...}\<close> of a negated atom's position has the
  fields of an argument, so it is an \<open>arg\<close> record.
\<close>

type_synonym negation_map_t = "(nat \<times> (nat \<times> arg) list) list"
type_synonym anti_join_map_t = "(nat \<times> (nat \<times> atom_arg_pair) list) list"

record negation_result =
  negation_map :: negation_map_t
  anti_join_map :: anti_join_map_t

text \<open>The first loop (lines 273 to 285): name and type of every position.\<close>

definition build_negation_map :: "atom list \<Rightarrow> negation_map_t" where
  "build_negation_map body_negation_atoms =
     fold (\<lambda>negation_idx nm.
             let negation_arg_list = arg_list (body_negation_atoms ! negation_idx);
                 negation_atom_map =
                   fold (\<lambda>arg_idx am.
                           AList.update arg_idx
                             \<lparr>arg_type = arg_type (negation_arg_list ! arg_idx),
                              arg_name = arg_name (negation_arg_list ! arg_idx)\<rparr> am)
                        [0..<length negation_arg_list] []
             in AList.update negation_idx negation_atom_map nm)
          [0..<length body_negation_atoms] []"

text \<open>
  The body of the second loop (lines 290 to 298), for one position of one negated atom.
  The resolver's \<open>KeyError\<close> is not caught.
\<close>

definition anti_join_step ::
  "variable_arg_to_atom_map \<Rightarrow> nat \<Rightarrow> nat \<times> arg \<Rightarrow> anti_join_map_t
     \<Rightarrow> py_error + anti_join_map_t" where
  "anti_join_step m negation_atom_idx entry ajm =
     (if arg_type (snd entry) = ''variable'' then
        (case search_argument_mapping_in_body_atoms m (arg_name (snd entry)) of
           Inl e \<Rightarrow> Inl e
         | Inr None \<Rightarrow> Inr ajm
         | Inr (Some arg_to_body_atom_arg_map) \<Rightarrow>
             let ajm1 = (if map_of ajm negation_atom_idx = None
                         then AList.update negation_atom_idx [] ajm else ajm);
                 inner = (case map_of ajm1 negation_atom_idx of Some d \<Rightarrow> d | None \<Rightarrow> [])
             in Inr (AList.update negation_atom_idx
                       (AList.update (fst entry) arg_to_body_atom_arg_map inner) ajm1))
      else Inr ajm)"

definition extract_negation_map ::
  "atom list \<Rightarrow> variable_arg_to_atom_map \<Rightarrow> py_error + negation_result" where
  "extract_negation_map body_negation_atoms m =
     (let nm = build_negation_map body_negation_atoms
      in case fold_err (\<lambda>(negation_atom_idx, negation_atom_map) ajm.
                          fold_err (anti_join_step m negation_atom_idx) negation_atom_map ajm)
                nm [] of
           Inl e \<Rightarrow> Inl e
         | Inr ajm \<Rightarrow> Inr \<lparr>negation_map = nm, anti_join_map = ajm\<rparr>)"

section \<open>Recursive alias group builder\<close>

text \<open>Python's \<open>str\<close> of an integer, as \<open>format\<close> prints it (line 368).\<close>

fun str_nat :: "nat \<Rightarrow> string" where
  "str_nat n =
     (if n < 10 then [char_of (48 + n)]
      else str_nat (n div 10) @ [char_of (48 + n mod 10)])"

definition str_int :: "int \<Rightarrow> string" where
  "str_int i = (if i < 0 then CHR ''-'' # str_nat (nat (- i)) else str_nat (nat i))"

text \<open>
  The dict \<open>{'alias': ..., 'type': ...}\<close>; its keys are the fields \<open>alias_name\<close> and
  \<open>alias_type\<close>.
\<close>

record alias_entry =
  alias_name :: string
  alias_type :: string

text \<open>The dict \<open>{'body_atom_eval_names': ..., 'idb_num': ...}\<close>.\<close>

record atom_aliases =
  body_atom_eval_names :: "alias_entry list list"
  idb_num :: int

text \<open>
  Lines 351 to 375. \<open>eval_idb_to_rule_maps\<close> is a dict keyed by relation names; only its
  keys are looked at. The first loop counts the atoms whose relation is a key, the second
  fills in the alias list of every atom.
\<close>

definition build_recursive_atom_aliases ::
  "atom list \<Rightarrow> (string \<Rightarrow> 'r option) \<Rightarrow> int \<Rightarrow> atom_aliases" where
  "build_recursive_atom_aliases body_atoms eval_idb_to_rule_maps iter_num =
     \<lparr>body_atom_eval_names =
        map (\<lambda>a. if eval_idb_to_rule_maps (name a) = None then
                    [\<lparr>alias_name = name a, alias_type = ''default''\<rparr>]
                 else
                    [\<lparr>alias_name = name a @ ''_prev'', alias_type = ''prev''\<rparr>,
                     \<lparr>alias_name = name a @ ''_delta_'' @ str_int (iter_num - 1),
                      alias_type = ''delta''\<rparr>])
            body_atoms,
      idb_num =
        fold (\<lambda>a n. if eval_idb_to_rule_maps (name a) \<noteq> None then n + 1 else n) body_atoms 0\<rparr>"

text \<open>
  The body of the loop over the atoms (lines 400 to 421). The copies made by \<open>deepcopy\<close>
  are equal to the groups they copy, and each gets one of the further aliases appended
  and is itself appended to the groups; \<open>atom_eval_names[0]\<close> raises \<open>IndexError\<close> on an
  empty alias list (the groups are not empty there, so the loop of line 420 runs).
\<close>

definition extend_groups ::
  "alias_entry list \<Rightarrow> alias_entry list list \<Rightarrow> py_error + alias_entry list list" where
  "extend_groups atom_eval_names atom_eval_name_groups =
     (if length atom_eval_name_groups = 0 then
        Inr (map (\<lambda>atom_eval_name. [atom_eval_name]) atom_eval_names)
      else if 1 < length atom_eval_names then
        Inr (map (\<lambda>alias_group. alias_group @ [atom_eval_names ! 0]) atom_eval_name_groups @
             concat (map (\<lambda>k. map (\<lambda>alias_group. alias_group @ [atom_eval_names ! (k + 1)])
                                 atom_eval_name_groups)
                         [0..<length atom_eval_names - 1]))
      else
        (case atom_eval_names of
           [] \<Rightarrow> Inl IndexError
         | atom_eval_name # _ \<Rightarrow>
             Inr (map (\<lambda>alias_group. alias_group @ [atom_eval_name]) atom_eval_name_groups)))"

text \<open>Lines 425 to 428: the number of \<open>prev\<close> aliases of a group.\<close>

definition prev_count :: "alias_entry list \<Rightarrow> int" where
  "prev_count alias_group =
     fold (\<lambda>a n. if alias_type a = ''prev'' then n + 1 else n) alias_group 0"

text \<open>
  The loop of lines 424 to 430 removes from the list it runs through. Python's list
  iterator keeps an index: it stops when the index reaches the current length, and
  \<open>remove\<close> deletes the first element equal to the group, so that the element after a
  removed one is passed over.
\<close>

function remove_all_prev_groups ::
  "int \<Rightarrow> nat \<Rightarrow> alias_entry list list \<Rightarrow> alias_entry list list" where
  "remove_all_prev_groups idb_n i groups =
     (if i < length groups then
        (if prev_count (groups ! i) = idb_n
         then remove_all_prev_groups idb_n (i + 1) (remove1 (groups ! i) groups)
         else remove_all_prev_groups idb_n (i + 1) groups)
      else groups)"
  by pat_completeness auto
termination
  by (relation "measure (\<lambda>(idb_n, i, groups). length groups - i)")
    (auto simp: length_remove1)

text \<open>
  Lines 395 to 432; \<open>body_atom_eval_names[atom_index]\<close> raises \<open>IndexError\<close> when the
  alias map has fewer entries than the body has atoms.
\<close>

definition build_recursive_atom_alias_groups ::
  "atom list \<Rightarrow> atom_aliases \<Rightarrow> py_error + alias_entry list list" where
  "build_recursive_atom_alias_groups body_atoms atom_aliases_map =
     (case fold_err (\<lambda>atom_idx groups.
                       if atom_idx < length (body_atom_eval_names atom_aliases_map)
                       then extend_groups (body_atom_eval_names atom_aliases_map ! atom_idx) groups
                       else Inl IndexError)
             [0..<length body_atoms] [] of
        Inl e \<Rightarrow> Inl e
      | Inr atom_eval_name_groups \<Rightarrow>
          Inr (remove_all_prev_groups (idb_num atom_aliases_map) 0 atom_eval_name_groups))"

section \<open>Concrete rules\<close>

definition var :: "string \<Rightarrow> arg" where
  "var v = \<lparr>arg_type = ''variable'', arg_name = v\<rparr>"

definition const :: "string \<Rightarrow> arg" where
  "const c = \<lparr>arg_type = ''constant'', arg_name = c\<rparr>"

definition mk_atom :: "string \<Rightarrow> arg list \<Rightarrow> atom" where
  "mk_atom n args = \<lparr>name = n, arg_list = args\<rparr>"

section \<open>The functions with their objects in a store\<close>

text \<open>
  The definitions above take the rule as a value and return the maps as values. The
  functions of the module build their results by in-place updates of dicts and lists, and
  they are handed references to the caller's objects. To say what a call does to the
  objects it is handed, the same functions are written a second time over an explicit
  store: an object is a list, a dict (in insertion order) or an instance with the two
  attributes \<open>type\<close> and \<open>name\<close>; a value is \<open>None\<close>, an integer, a string or the address of
  an object; a program maps the store to the store after it and a value or an exception,
  or to \<open>None\<close> when a loop has not ended within its bound. \<open>==\<close>, \<open>in\<close>, \<open>str.format\<close>,
  \<open>str.lower\<close> and \<open>float\<close> are parameters that read the store and do not change it, as
  they do on the strings, integers, lists and dicts of a parsed rule.
\<close>

subsection \<open>Object store\<close>

datatype val = VNone | VInt int | VStr string | VRef nat

datatype obj = OList "val list" | ODict "(val \<times> val) list" | OInst val val

datatype py_exc =
    KeyErr val | TypeErr | ValueErr | IndexErr | AttributeErr | RuntimeErr | RecursionErr
  | Exc string

type_synonym heap = "obj list"

type_synonym 'a prog = "heap \<Rightarrow> ((py_exc + 'a) \<times> heap) option"

definition ret :: "'a \<Rightarrow> 'a prog" where
  "ret x = (\<lambda>h. Some (Inr x, h))"

definition throw :: "py_exc \<Rightarrow> 'a prog" where
  "throw e = (\<lambda>h. Some (Inl e, h))"

definition seq :: "'a prog \<Rightarrow> ('a \<Rightarrow> 'b prog) \<Rightarrow> 'b prog" where
  "seq m f = (\<lambda>h. case m h of
                     None \<Rightarrow> None
                   | Some (Inl e, h') \<Rightarrow> Some (Inl e, h')
                   | Some (Inr x, h') \<Rightarrow> f x h')"

definition new_obj :: "obj \<Rightarrow> val prog" where
  "new_obj ob = (\<lambda>h. Some (Inr (VRef (length h)), h @ [ob]))"

definition deref :: "val \<Rightarrow> obj prog" where
  "deref v = (\<lambda>h. case v of
                     VRef a \<Rightarrow> if a < length h then Some (Inr (h ! a), h)
                               else Some (Inl TypeErr, h)
                   | _ \<Rightarrow> Some (Inl TypeErr, h))"

definition put_obj :: "nat \<Rightarrow> obj \<Rightarrow> unit prog" where
  "put_obj a ob = (\<lambda>h. Some (Inr (), h[a := ob]))"

definition py_index :: "int \<Rightarrow> nat \<Rightarrow> nat option" where
  "py_index i n =
     (if 0 \<le> i \<and> i < int n then Some (nat i)
      else if i < 0 \<and> 0 \<le> i + int n then Some (nat (i + int n))
      else None)"

definition py_len :: "val \<Rightarrow> int prog" where
  "py_len v =
     (case v of
        VStr s \<Rightarrow> ret (int (length s))
      | VRef a \<Rightarrow>
          seq (deref v) (\<lambda>ob. case ob of
              OList l \<Rightarrow> ret (int (length l))
            | ODict d \<Rightarrow> ret (int (length d))
            | OInst t n \<Rightarrow> throw TypeErr)
      | _ \<Rightarrow> throw TypeErr)"

definition hashable :: "heap \<Rightarrow> val \<Rightarrow> bool" where
  "hashable h k =
     (case k of
        VRef a \<Rightarrow> (if a < length h then (case h ! a of OInst t n \<Rightarrow> True | _ \<Rightarrow> False)
                   else False)
      | _ \<Rightarrow> True)"

definition getitem :: "val \<Rightarrow> val \<Rightarrow> val prog" where
  "getitem v k =
     (case v of
        VStr s \<Rightarrow>
          (case k of
             VInt i \<Rightarrow> (case py_index i (length s) of
                          Some j \<Rightarrow> ret (VStr [s ! j]) | None \<Rightarrow> throw IndexErr)
           | _ \<Rightarrow> throw TypeErr)
      | VRef a \<Rightarrow>
          seq (deref v) (\<lambda>ob. case ob of
              OList l \<Rightarrow>
                (case k of
                   VInt i \<Rightarrow> (case py_index i (length l) of
                                Some j \<Rightarrow> ret (l ! j) | None \<Rightarrow> throw IndexErr)
                 | _ \<Rightarrow> throw TypeErr)
            | ODict d \<Rightarrow>
                (\<lambda>h. if hashable h k
                      then (case map_of d k of Some x \<Rightarrow> ret x h | None \<Rightarrow> throw (KeyErr k) h)
                      else throw TypeErr h)
            | OInst t n \<Rightarrow> throw TypeErr)
      | _ \<Rightarrow> throw TypeErr)"

definition setitem :: "val \<Rightarrow> val \<Rightarrow> val \<Rightarrow> unit prog" where
  "setitem v k x =
     (case v of
        VRef a \<Rightarrow>
          seq (deref v) (\<lambda>ob. case ob of
              OList l \<Rightarrow>
                (case k of
                   VInt i \<Rightarrow> (case py_index i (length l) of
                                Some j \<Rightarrow> put_obj a (OList (l[j := x]))
                              | None \<Rightarrow> throw IndexErr)
                 | _ \<Rightarrow> throw TypeErr)
            | ODict d \<Rightarrow>
                (\<lambda>h. if hashable h k then put_obj a (ODict (AList.update k x d)) h
                      else throw TypeErr h)
            | OInst t n \<Rightarrow> throw TypeErr)
      | _ \<Rightarrow> throw TypeErr)"

definition list_append :: "val \<Rightarrow> val \<Rightarrow> unit prog" where
  "list_append v x =
     (case v of
        VRef a \<Rightarrow>
          seq (deref v) (\<lambda>ob. case ob of
              OList l \<Rightarrow> put_obj a (OList (l @ [x]))
            | _ \<Rightarrow> throw AttributeErr)
      | _ \<Rightarrow> throw AttributeErr)"

definition arg_type_of :: "val \<Rightarrow> val prog" where
  "arg_type_of v =
     (case v of
        VRef a \<Rightarrow> seq (deref v) (\<lambda>ob. case ob of OInst t n \<Rightarrow> ret t | _ \<Rightarrow> throw AttributeErr)
      | _ \<Rightarrow> throw AttributeErr)"

definition arg_name_of :: "val \<Rightarrow> val prog" where
  "arg_name_of v =
     (case v of
        VRef a \<Rightarrow> seq (deref v) (\<lambda>ob. case ob of OInst t n \<Rightarrow> ret n | _ \<Rightarrow> throw AttributeErr)
      | _ \<Rightarrow> throw AttributeErr)"

text \<open>The values an object holds: elements, dict values, attribute values.\<close>

fun vals :: "obj \<Rightarrow> val list" where
  "vals (OList l) = l"
| "vals (ODict d) = map snd d"
| "vals (OInst t n) = [t, n]"

subsection \<open>Builtins without effect\<close>

record builtins =
  py_eq :: "heap \<Rightarrow> val \<Rightarrow> val \<Rightarrow> py_exc + bool"
  py_in :: "heap \<Rightarrow> val \<Rightarrow> val \<Rightarrow> py_exc + bool"
  py_format :: "heap \<Rightarrow> string \<Rightarrow> val list \<Rightarrow> py_exc + val"
  py_lower :: "heap \<Rightarrow> val \<Rightarrow> py_exc + val"
  py_float :: "heap \<Rightarrow> val \<Rightarrow> py_exc + val"

definition call :: "(heap \<Rightarrow> py_exc + 'a) \<Rightarrow> 'a prog" where
  "call f = (\<lambda>h. Some (f h, h))"

definition int_of :: "val \<Rightarrow> int prog" where
  "int_of v = (case v of VInt i \<Rightarrow> ret i | _ \<Rightarrow> throw TypeErr)"

subsection \<open>Loops\<close>

text \<open>\<open>for i in range(n)\<close>, with the local variables the body assigns as the state.\<close>

fun for_range :: "nat list \<Rightarrow> ('s \<Rightarrow> nat \<Rightarrow> 's prog) \<Rightarrow> 's \<Rightarrow> 's prog" where
  "for_range [] body s = ret s"
| "for_range (i # is) body s = seq (body s i) (for_range is body)"

text \<open>
  \<open>for x in v\<close> over a list reads the list again at every step, at the next index; over a
  dict it raises \<open>RuntimeError\<close> when the size has changed, and reads the key at the next
  position. The first argument bounds the number of steps: \<open>None\<close> is a loop that has not
  ended within the bound.
\<close>

fun for_in ::
  "nat \<Rightarrow> nat option \<Rightarrow> nat \<Rightarrow> val \<Rightarrow> ('s \<Rightarrow> val \<Rightarrow> 's prog) \<Rightarrow> 's \<Rightarrow> 's prog" where
  "for_in 0 size0 i v body s = (\<lambda>h. None)"
| "for_in (Suc fuel) size0 i v body s =
     seq (deref v) (\<lambda>ob. case ob of
         OList l \<Rightarrow>
           if i < length l then seq (body s (l ! i)) (for_in fuel size0 (i + 1) v body)
           else ret s
       | ODict d \<Rightarrow>
           if size0 \<noteq> None \<and> size0 \<noteq> Some (length d) then throw RuntimeErr
           else if i < length d
                then seq (body s (fst (d ! i))) (for_in fuel (Some (length d)) (i + 1) v body)
                else ret s
       | OInst t n \<Rightarrow> throw TypeErr)"

subsection \<open>\<open>list.remove\<close> and \<open>copy.deepcopy\<close>\<close>

text \<open>The index of the first element equal to \<open>x\<close>.\<close>

fun first_equal :: "(val \<Rightarrow> py_exc + bool) \<Rightarrow> val list \<Rightarrow> nat \<Rightarrow> py_exc + nat option" where
  "first_equal eq [] i = Inr None"
| "first_equal eq (y # ys) i =
     (case eq y of
        Inl e \<Rightarrow> Inl e
      | Inr True \<Rightarrow> Inr (Some i)
      | Inr False \<Rightarrow> first_equal eq ys (i + 1))"

definition list_remove :: "builtins \<Rightarrow> val \<Rightarrow> val \<Rightarrow> unit prog" where
  "list_remove b v x =
     (case v of
        VRef a \<Rightarrow>
          seq (deref v) (\<lambda>ob. case ob of
              OList l \<Rightarrow>
                seq (call (\<lambda>h. first_equal (\<lambda>y. py_eq b h y x) l 0)) (\<lambda>r. case r of
                    None \<Rightarrow> throw ValueErr
                  | Some i \<Rightarrow> put_obj a (OList (take i l @ drop (i + 1) l)))
            | _ \<Rightarrow> throw AttributeErr)
      | _ \<Rightarrow> throw AttributeErr)"

text \<open>
  \<open>deepcopy\<close> keeps a memo from the copied objects to their copies; a list, a dict or an
  instance is copied into a new object that is entered in the memo before its parts are
  copied. The first argument is the recursion limit.
\<close>

type_synonym memo = "(nat \<times> nat) list"

fun copy_elems ::
  "(memo \<Rightarrow> val \<Rightarrow> heap \<Rightarrow> (py_exc + val) \<times> memo \<times> heap) \<Rightarrow> nat \<Rightarrow> val list \<Rightarrow> memo \<Rightarrow> heap
     \<Rightarrow> (py_exc + unit) \<times> memo \<times> heap" where
  "copy_elems cp c [] mm h = (Inr (), mm, h)"
| "copy_elems cp c (x # xs) mm h =
     (case cp mm x h of
        (Inl e, mm', h') \<Rightarrow> (Inl e, mm', h')
      | (Inr y, mm', h') \<Rightarrow>
          copy_elems cp c xs mm'
            (case h' ! c of OList l \<Rightarrow> h'[c := OList (l @ [y])] | _ \<Rightarrow> h'))"

fun copy_items ::
  "(memo \<Rightarrow> val \<Rightarrow> heap \<Rightarrow> (py_exc + val) \<times> memo \<times> heap) \<Rightarrow> nat \<Rightarrow> (val \<times> val) list \<Rightarrow> memo
     \<Rightarrow> heap \<Rightarrow> (py_exc + unit) \<times> memo \<times> heap" where
  "copy_items cp c [] mm h = (Inr (), mm, h)"
| "copy_items cp c ((k, x) # xs) mm h =
     (case cp mm k h of
        (Inl e, mm', h') \<Rightarrow> (Inl e, mm', h')
      | (Inr k', mm', h') \<Rightarrow>
          (case cp mm' x h' of
             (Inl e, mm'', h'') \<Rightarrow> (Inl e, mm'', h'')
           | (Inr y, mm'', h'') \<Rightarrow>
               copy_items cp c xs mm''
                 (case h'' ! c of
                    ODict d \<Rightarrow> h''[c := ODict (AList.update k' y d)]
                  | _ \<Rightarrow> h'')))"

fun deepcopy_memo :: "nat \<Rightarrow> memo \<Rightarrow> val \<Rightarrow> heap \<Rightarrow> (py_exc + val) \<times> memo \<times> heap" where
  "deepcopy_memo limit mm (VRef a) h =
     (case map_of mm a of
        Some c \<Rightarrow> (Inr (VRef c), mm, h)
      | None \<Rightarrow>
          (case limit of
             0 \<Rightarrow> (Inl RecursionErr, mm, h)
           | Suc limit' \<Rightarrow>
               if a < length h then
                 (case h ! a of
                    OList l \<Rightarrow>
                      (case copy_elems (deepcopy_memo limit') (length h) l
                              ((a, length h) # mm) (h @ [OList []]) of
                         (Inl e, mm', h') \<Rightarrow> (Inl e, mm', h')
                       | (Inr u, mm', h') \<Rightarrow> (Inr (VRef (length h)), mm', h'))
                  | ODict d \<Rightarrow>
                      (case copy_items (deepcopy_memo limit') (length h) d
                              ((a, length h) # mm) (h @ [ODict []]) of
                         (Inl e, mm', h') \<Rightarrow> (Inl e, mm', h')
                       | (Inr u, mm', h') \<Rightarrow> (Inr (VRef (length h)), mm', h'))
                  | OInst t n \<Rightarrow>
                      (case deepcopy_memo limit' ((a, length h) # mm) t (h @ [OInst VNone VNone]) of
                         (Inl e, mm', h') \<Rightarrow> (Inl e, mm', h')
                       | (Inr t', mm', h') \<Rightarrow>
                           (case deepcopy_memo limit' mm' n h' of
                              (Inl e, mm'', h'') \<Rightarrow> (Inl e, mm'', h'')
                            | (Inr n', mm'', h'') \<Rightarrow>
                                (Inr (VRef (length h)), mm'',
                                 h''[length h := OInst t' n']))))
               else (Inl TypeErr, mm, h)))"
| "deepcopy_memo limit mm v h = (Inr v, mm, h)"

definition deepcopy :: "nat \<Rightarrow> val \<Rightarrow> val prog" where
  "deepcopy limit v = (\<lambda>h. case deepcopy_memo limit [] v h of (r, mm, h') \<Rightarrow> Some (r, h'))"

subsection \<open>The functions on the store\<close>

definition skip :: "unit prog" where
  "skip = ret ()"

definition eq_str :: "builtins \<Rightarrow> val \<Rightarrow> string \<Rightarrow> bool prog" where
  "eq_str b v s = call (\<lambda>h. py_eq b h v (VStr s))"

fun for_items :: "val list \<Rightarrow> ('s \<Rightarrow> val \<Rightarrow> 's prog) \<Rightarrow> 's \<Rightarrow> 's prog" where
  "for_items [] body s = ret s"
| "for_items (x # xs) body s = seq (body s x) (for_items xs body)"

definition for_each :: "nat \<Rightarrow> val \<Rightarrow> ('s \<Rightarrow> val \<Rightarrow> 's prog) \<Rightarrow> 's \<Rightarrow> 's prog" where
  "for_each fuel v body s =
     (case v of
        VStr cs \<Rightarrow> for_items (map (\<lambda>c. VStr [c]) cs) body s
      | _ \<Rightarrow> for_in fuel None 0 v body s)"

definition iter_snapshot :: "val \<Rightarrow> val list prog" where
  "iter_snapshot v =
     (case v of
        VStr cs \<Rightarrow> ret (map (\<lambda>c. VStr [c]) cs)
      | _ \<Rightarrow> seq (deref v) (\<lambda>ob. case ob of
                 OList l \<Rightarrow> ret l
               | ODict d \<Rightarrow> ret (map fst d)
               | OInst t n \<Rightarrow> throw TypeErr))"

subsubsection \<open>search_argument_mapping_in_body_atoms (lines 53 to 59)\<close>

fun first_pair :: "val \<Rightarrow> val list \<Rightarrow> val prog" where
  "first_pair d [] = ret VNone"
| "first_pair d (atom_idx # rest) =
     seq (getitem d atom_idx) (\<lambda>inner.
     seq (iter_snapshot inner) (\<lambda>es.
       case es of
         [] \<Rightarrow> first_pair d rest
       | arg_idx # _ \<Rightarrow>
           new_obj (ODict [(VStr ''atom_index'', atom_idx), (VStr ''arg_index'', arg_idx)])))"

definition search_s :: "val \<Rightarrow> val \<Rightarrow> val prog" where
  "search_s m var_name =
     seq (getitem m var_name) (\<lambda>d.
     seq (iter_snapshot d) (\<lambda>ks. first_pair d ks))"

subsubsection \<open>extract_variable_arg_to_atom_map (lines 24 to 40)\<close>

definition index_arg_s :: "builtins \<Rightarrow> val \<Rightarrow> val \<Rightarrow> nat \<Rightarrow> nat \<Rightarrow> unit prog" where
  "index_arg_s b m atom_arg_list atom_idx arg_idx =
     seq (getitem atom_arg_list (VInt (int arg_idx))) (\<lambda>a.
     seq (arg_type_of a) (\<lambda>t.
     seq (eq_str b t ''variable'') (\<lambda>is_var.
       if \<not> is_var then skip
       else
         seq (arg_name_of a) (\<lambda>nm.
         seq (call (\<lambda>h. py_in b h nm m)) (\<lambda>present.
         seq (if \<not> present
              then seq (new_obj (ODict [])) (\<lambda>d. setitem m nm d)
              else skip) (\<lambda>_.
         seq (arg_name_of a) (\<lambda>nm1.
         seq (getitem m nm1) (\<lambda>inner.
         seq (call (\<lambda>h. py_in b h (VInt (int atom_idx)) inner)) (\<lambda>present1.
         seq (if \<not> present1
              then seq (new_obj (OList [])) (\<lambda>l.
                   seq (arg_name_of a) (\<lambda>nm2.
                   seq (getitem m nm2) (\<lambda>inner1.
                     setitem inner1 (VInt (int atom_idx)) l)))
              else skip) (\<lambda>_.
         seq (arg_name_of a) (\<lambda>nm3.
         seq (getitem m nm3) (\<lambda>inner2.
         seq (getitem inner2 (VInt (int atom_idx))) (\<lambda>l.
           list_append l (VInt (int arg_idx)))))))))))))))"

definition index_atom_s :: "builtins \<Rightarrow> val \<Rightarrow> val \<Rightarrow> nat \<Rightarrow> unit prog" where
  "index_atom_s b m body_atoms atom_idx =
     seq (getitem body_atoms (VInt (int atom_idx))) (\<lambda>a.
     seq (getitem a (VStr ''arg_list'')) (\<lambda>atom_arg_list.
     seq (py_len atom_arg_list) (\<lambda>atom_arg_num.
       for_range [0..<nat atom_arg_num]
         (\<lambda>_ arg_idx. index_arg_s b m atom_arg_list atom_idx arg_idx) ())))"

definition extract_variable_arg_to_atom_map_s :: "builtins \<Rightarrow> val \<Rightarrow> val prog" where
  "extract_variable_arg_to_atom_map_s b body_atoms =
     seq (py_len body_atoms) (\<lambda>body_atom_num.
     seq (new_obj (ODict [])) (\<lambda>m.
     seq (for_range [0..<nat body_atom_num]
            (\<lambda>_ atom_idx. index_atom_s b m body_atoms atom_idx) ()) (\<lambda>_.
       ret m)))"

subsubsection \<open>extract_selection_map (lines 72 to 133)\<close>

definition math_expr_entry_s :: "val \<Rightarrow> val \<Rightarrow> val prog" where
  "math_expr_entry_s m math_expr =
     seq (getitem math_expr (VStr ''lhs'')) (\<lambda>lhs_name.
     seq (getitem math_expr (VStr ''rhs'')) (\<lambda>rhs_name.
     seq (getitem math_expr (VStr ''op'')) (\<lambda>math_op.
     seq (search_s m lhs_name) (\<lambda>lhs_map.
     seq (search_s m rhs_name) (\<lambda>rhs_map.
       new_obj (ODict [(VStr ''type'', VStr ''math_expr''), (VStr ''lhs_map'', lhs_map),
                       (VStr ''rhs_map'', rhs_map), (VStr ''math_op'', math_op)]))))))"

definition select_arg_s ::
  "builtins \<Rightarrow> val \<Rightarrow> val \<Rightarrow> val \<Rightarrow> val \<Rightarrow> val \<Rightarrow> nat \<Rightarrow> unit prog" where
  "select_arg_s b m head_arg_list arg_map type_map agg_map arg_idx =
     seq (getitem head_arg_list (VInt (int arg_idx))) (\<lambda>head_arg.
     seq (arg_type_of head_arg) (\<lambda>t.
     seq (eq_str b t ''variable'') (\<lambda>is_var.
       if is_var then
         seq (arg_name_of head_arg) (\<lambda>head_arg_name.
         seq (list_append type_map (VStr ''var'')) (\<lambda>_.
         seq (search_s m head_arg_name) (\<lambda>r.
           setitem arg_map (VInt (int arg_idx)) r)))
       else
     seq (arg_type_of head_arg) (\<lambda>t1.
     seq (eq_str b t1 ''aggregation'') (\<lambda>is_agg.
       if is_agg then
         seq (arg_name_of head_arg) (\<lambda>nm.
         seq (getitem nm (VStr ''agg_arg'')) (\<lambda>head_arg_name.
         seq (list_append type_map (VStr ''agg'')) (\<lambda>_.
         seq (arg_name_of head_arg) (\<lambda>nm1.
         seq (getitem nm1 (VStr ''agg_op'')) (\<lambda>agg_op.
         seq (setitem agg_map (VInt (int arg_idx)) agg_op) (\<lambda>_.
         seq (getitem head_arg_name (VStr ''type'')) (\<lambda>ty.
         seq (eq_str b ty ''attribute'') (\<lambda>is_attr.
           if is_attr then
             seq (getitem head_arg_name (VStr ''content'')) (\<lambda>content.
             seq (search_s m content) (\<lambda>r.
             seq (new_obj (ODict [(VStr ''type'', VStr ''attribute''), (VStr ''map'', r)])) (\<lambda>d.
               setitem arg_map (VInt (int arg_idx)) d)))
           else
         seq (getitem head_arg_name (VStr ''type'')) (\<lambda>ty1.
         seq (eq_str b ty1 ''math_expr'') (\<lambda>is_math.
           if is_math then
             seq (getitem head_arg_name (VStr ''content'')) (\<lambda>math_expr.
             seq (math_expr_entry_s m math_expr) (\<lambda>d.
               setitem arg_map (VInt (int arg_idx)) d))
           else skip))))))))))
       else
     seq (arg_type_of head_arg) (\<lambda>t2.
     seq (eq_str b t2 ''math_expr'') (\<lambda>is_math.
       if is_math then
         seq (list_append type_map (VStr ''math_expr'')) (\<lambda>_.
         seq (arg_name_of head_arg) (\<lambda>math_expr.
         seq (math_expr_entry_s m math_expr) (\<lambda>d.
           setitem arg_map (VInt (int arg_idx)) d)))
       else
     seq (arg_type_of head_arg) (\<lambda>t3.
     seq (eq_str b t3 ''constant'') (\<lambda>is_const.
       if is_const then
         seq (list_append type_map (VStr ''constant'')) (\<lambda>_.
         seq (arg_name_of head_arg) (\<lambda>nm.
           setitem arg_map (VInt (int arg_idx)) nm))
       else skip)))))))))"

definition extract_selection_map_s :: "builtins \<Rightarrow> val \<Rightarrow> val \<Rightarrow> val prog" where
  "extract_selection_map_s b head m =
     seq (getitem head (VStr ''arg_list'')) (\<lambda>head_arg_list.
     seq (py_len head_arg_list) (\<lambda>head_arg_num.
     seq (new_obj (ODict [])) (\<lambda>arg_map.
     seq (new_obj (OList [])) (\<lambda>type_map.
     seq (new_obj (ODict [])) (\<lambda>agg_map.
     seq (for_range [0..<nat head_arg_num]
            (\<lambda>_ arg_idx. select_arg_s b m head_arg_list arg_map type_map agg_map arg_idx) ())
         (\<lambda>_.
       new_obj (ODict [(VStr ''head_arg_to_body_atom_arg_map'', arg_map),
                       (VStr ''head_arg_type_map'', type_map),
                       (VStr ''head_aggregation_map'', agg_map)])))))))"

subsubsection \<open>extract_join_map (lines 146 to 160)\<close>

text \<open>
  The loop of lines 153 to 156 changes nothing and stops at the first atom with more than
  one position.
\<close>

fun any_repeated :: "val \<Rightarrow> val \<Rightarrow> val list \<Rightarrow> bool prog" where
  "any_repeated m var_name [] = ret False"
| "any_repeated m var_name (atom_idx # rest) =
     seq (getitem m var_name) (\<lambda>d.
     seq (getitem d atom_idx) (\<lambda>positions.
     seq (py_len positions) (\<lambda>k.
       if 1 < k then ret True else any_repeated m var_name rest)))"

definition join_var_s :: "val \<Rightarrow> val \<Rightarrow> val \<Rightarrow> unit prog" where
  "join_var_s m join_map var_name =
     seq (getitem m var_name) (\<lambda>d.
     seq (py_len d) (\<lambda>k.
     seq (getitem m var_name) (\<lambda>d1.
     seq (iter_snapshot d1) (\<lambda>atoms.
     seq (any_repeated m var_name atoms) (\<lambda>repeated.
       if 1 < k \<or> repeated
       then seq (getitem m var_name) (\<lambda>d2. setitem join_map var_name d2)
       else skip)))))"

definition extract_join_map_s :: "nat \<Rightarrow> val \<Rightarrow> val prog" where
  "extract_join_map_s fuel m =
     seq (new_obj (ODict [])) (\<lambda>join_map.
     seq (for_each fuel m (\<lambda>_ var_name. join_var_s m join_map var_name) ()) (\<lambda>_.
       ret join_map))"

subsubsection \<open>extract_comparison_map (lines 175 to 222)\<close>

definition comparison_s :: "builtins \<Rightarrow> val \<Rightarrow> val \<Rightarrow> val \<Rightarrow> unit prog" where
  "comparison_s b m comparison_map comparison =
     seq (getitem comparison (VStr ''lhs'')) (\<lambda>lhs.
     seq (getitem comparison (VStr ''rhs'')) (\<lambda>rhs.
     seq (getitem lhs (VInt 0)) (\<lambda>lhs_arg.
     seq (getitem rhs (VInt 0)) (\<lambda>rhs_arg.
     seq (getitem lhs (VInt 1)) (\<lambda>lhs_arg_type.
     seq (getitem rhs (VInt 1)) (\<lambda>rhs_arg_type.
     seq (eq_str b lhs_arg_type ''var'') (\<lambda>lhs_var.
     seq (if lhs_var then ret True else eq_str b rhs_arg_type ''var'') (\<lambda>some_var.
       if \<not> some_var then
         throw (Exc
           ''At least one side of the comparison has to be variable in the body relations'')
       else
     seq (eq_str b lhs_arg_type ''var'') (\<lambda>lhs_is_base.
     seq (search_s m (if lhs_is_base then lhs_arg else rhs_arg)) (\<lambda>arg_to_body_atom_arg_map.
     seq (getitem arg_to_body_atom_arg_map (VStr ''atom_index'')) (\<lambda>mapped_atom_index.
     seq (getitem arg_to_body_atom_arg_map (VStr ''arg_index'')) (\<lambda>mapped_arg_index.
     seq (call (\<lambda>h. py_in b h mapped_atom_index comparison_map)) (\<lambda>present.
     seq (if \<not> present
          then seq (new_obj (ODict [])) (\<lambda>d. setitem comparison_map mapped_atom_index d)
          else skip) (\<lambda>_.
     seq (getitem comparison_map mapped_atom_index) (\<lambda>inner.
     seq (call (\<lambda>h. py_in b h mapped_arg_index inner)) (\<lambda>present1.
     seq (if \<not> present1
          then seq (new_obj (OList [])) (\<lambda>l.
               seq (getitem comparison_map mapped_atom_index) (\<lambda>inner1.
                 setitem inner1 mapped_arg_index l))
          else skip) (\<lambda>_.
     seq (new_obj (ODict [])) (\<lambda>comparison_struct.
     seq (setitem comparison_struct (VStr ''base_variable_side'')
            (VStr (if lhs_is_base then ''l'' else ''r''))) (\<lambda>_.
     seq (getitem comparison (VStr ''op'')) (\<lambda>comparison_op.
     seq (setitem comparison_struct (VStr ''compare_op'') comparison_op) (\<lambda>_.
     seq (eq_str b (if lhs_is_base then rhs_arg_type else lhs_arg_type) ''num'') (\<lambda>is_num.
     seq (if is_num then
            seq (setitem comparison_struct (VStr ''other_side_type'') (VStr ''num'')) (\<lambda>_.
            seq (call (\<lambda>h. py_float b h (if lhs_is_base then rhs_arg else lhs_arg))) (\<lambda>x.
              setitem comparison_struct (VStr ''numerical_value'') x))
          else
            seq (search_s m (if lhs_is_base then rhs_arg else lhs_arg)) (\<lambda>other.
            seq (setitem comparison_struct (VStr ''other_side_type'') (VStr ''var'')) (\<lambda>_.
            seq (getitem other (VStr ''atom_index'')) (\<lambda>oa.
            seq (setitem comparison_struct (VStr ''other_side_atom_index'') oa) (\<lambda>_.
            seq (getitem other (VStr ''arg_index'')) (\<lambda>ob.
              setitem comparison_struct (VStr ''other_side_arg_index'') ob)))))) (\<lambda>_.
     seq (getitem comparison_map mapped_atom_index) (\<lambda>inner2.
     seq (getitem inner2 mapped_arg_index) (\<lambda>l.
       list_append l comparison_struct)))))))))))))))))))))))))"

definition extract_comparison_map_s :: "builtins \<Rightarrow> nat \<Rightarrow> val \<Rightarrow> val \<Rightarrow> val prog" where
  "extract_comparison_map_s b fuel body_comparisons m =
     seq (new_obj (ODict [])) (\<lambda>comparison_map.
     seq (for_each fuel body_comparisons
            (\<lambda>_ comparison. comparison_s b m comparison_map comparison) ()) (\<lambda>_.
       ret comparison_map))"

subsubsection \<open>extract_constant_constraint_map (lines 239 to 253)\<close>

definition constant_arg_s :: "builtins \<Rightarrow> val \<Rightarrow> val \<Rightarrow> nat \<Rightarrow> nat \<Rightarrow> unit prog" where
  "constant_arg_s b constant_map atom_arg_list atom_idx arg_idx =
     seq (getitem atom_arg_list (VInt (int arg_idx))) (\<lambda>a.
     seq (arg_type_of a) (\<lambda>t.
     seq (getitem atom_arg_list (VInt (int arg_idx))) (\<lambda>a1.
     seq (arg_name_of a1) (\<lambda>nm.
     seq (eq_str b t ''constant'') (\<lambda>is_const.
       if is_const then
         seq (call (\<lambda>h. py_in b h (VInt (int atom_idx)) constant_map)) (\<lambda>present.
         seq (if \<not> present
              then seq (new_obj (ODict [])) (\<lambda>d. setitem constant_map (VInt (int atom_idx)) d)
              else skip) (\<lambda>_.
         seq (getitem constant_map (VInt (int atom_idx))) (\<lambda>inner.
           setitem inner (VInt (int arg_idx)) nm)))
       else skip)))))"

definition constant_atom_s :: "builtins \<Rightarrow> val \<Rightarrow> val \<Rightarrow> nat \<Rightarrow> unit prog" where
  "constant_atom_s b constant_map body_atoms atom_idx =
     seq (getitem body_atoms (VInt (int atom_idx))) (\<lambda>a.
     seq (getitem a (VStr ''arg_list'')) (\<lambda>atom_arg_list.
     seq (py_len atom_arg_list) (\<lambda>atom_arg_num.
       for_range [0..<nat atom_arg_num]
         (\<lambda>_ arg_idx. constant_arg_s b constant_map atom_arg_list atom_idx arg_idx) ())))"

definition extract_constant_constraint_map_s :: "builtins \<Rightarrow> val \<Rightarrow> val prog" where
  "extract_constant_constraint_map_s b body_atoms =
     seq (py_len body_atoms) (\<lambda>body_atom_num.
     seq (new_obj (ODict [])) (\<lambda>constant_map.
     seq (for_range [0..<nat body_atom_num]
            (\<lambda>_ atom_idx. constant_atom_s b constant_map body_atoms atom_idx) ()) (\<lambda>_.
       ret constant_map)))"

subsubsection \<open>extract_negation_map (lines 270 to 303)\<close>

definition negation_arg_s :: "val \<Rightarrow> val \<Rightarrow> nat \<Rightarrow> unit prog" where
  "negation_arg_s negation_atom_map negation_arg_list arg_idx =
     seq (getitem negation_arg_list (VInt (int arg_idx))) (\<lambda>negation_arg.
     seq (arg_name_of negation_arg) (\<lambda>negation_arg_name.
     seq (arg_type_of negation_arg) (\<lambda>negation_arg_type.
     seq (new_obj (ODict [])) (\<lambda>d.
     seq (setitem negation_atom_map (VInt (int arg_idx)) d) (\<lambda>_.
     seq (getitem negation_atom_map (VInt (int arg_idx))) (\<lambda>e.
     seq (setitem e (VStr ''arg_name'') negation_arg_name) (\<lambda>_.
     seq (getitem negation_atom_map (VInt (int arg_idx))) (\<lambda>e1.
       setitem e1 (VStr ''arg_type'') negation_arg_type))))))))"

definition negation_atom_s :: "val \<Rightarrow> val \<Rightarrow> nat \<Rightarrow> unit prog" where
  "negation_atom_s negation_dict body_negation_atoms negation_idx =
     seq (getitem body_negation_atoms (VInt (int negation_idx))) (\<lambda>negation.
     seq (getitem negation (VStr ''arg_list'')) (\<lambda>negation_arg_list.
     seq (py_len negation_arg_list) (\<lambda>negation_arg_num.
     seq (new_obj (ODict [])) (\<lambda>d.
     seq (setitem negation_dict (VInt (int negation_idx)) d) (\<lambda>_.
     seq (getitem negation_dict (VInt (int negation_idx))) (\<lambda>negation_atom_map.
       for_range [0..<nat negation_arg_num]
         (\<lambda>_ arg_idx. negation_arg_s negation_atom_map negation_arg_list arg_idx) ()))))))"

definition anti_join_arg_s ::
  "builtins \<Rightarrow> val \<Rightarrow> val \<Rightarrow> val \<Rightarrow> val \<Rightarrow> val \<Rightarrow> unit prog" where
  "anti_join_arg_s b m anti_join_dict negation_atom_idx negation_atom_map arg_idx =
     seq (getitem negation_atom_map arg_idx) (\<lambda>e.
     seq (getitem e (VStr ''arg_type'')) (\<lambda>t.
     seq (eq_str b t ''variable'') (\<lambda>is_var.
       if is_var then
         seq (getitem negation_atom_map arg_idx) (\<lambda>e1.
         seq (getitem e1 (VStr ''arg_name'')) (\<lambda>nm.
         seq (search_s m nm) (\<lambda>r.
           if r = VNone then skip
           else
             seq (call (\<lambda>h. py_in b h negation_atom_idx anti_join_dict)) (\<lambda>present.
             seq (if \<not> present
                  then seq (new_obj (ODict [])) (\<lambda>d. setitem anti_join_dict negation_atom_idx d)
                  else skip) (\<lambda>_.
             seq (getitem anti_join_dict negation_atom_idx) (\<lambda>inner.
               setitem inner arg_idx r))))))
       else skip)))"

definition extract_negation_map_s :: "builtins \<Rightarrow> nat \<Rightarrow> val \<Rightarrow> val \<Rightarrow> val prog" where
  "extract_negation_map_s b fuel body_negation_atoms m =
     seq (py_len body_negation_atoms) (\<lambda>body_negation_num.
     seq (new_obj (ODict [])) (\<lambda>negation_dict.
     seq (new_obj (ODict [])) (\<lambda>anti_join_dict.
     seq (for_range [0..<nat body_negation_num]
            (\<lambda>_ negation_idx. negation_atom_s negation_dict body_negation_atoms negation_idx) ())
         (\<lambda>_.
     seq (for_each fuel negation_dict
            (\<lambda>_ negation_atom_idx.
               seq (getitem negation_dict negation_atom_idx) (\<lambda>negation_atom_map.
                 for_each fuel negation_atom_map
                   (\<lambda>_ arg_idx. anti_join_arg_s b m anti_join_dict negation_atom_idx
                                  negation_atom_map arg_idx) ())) ()) (\<lambda>_.
       new_obj (ODict [(VStr ''negation_map'', negation_dict),
                       (VStr ''anti_join_map'', anti_join_dict)]))))))"

subsubsection \<open>build_atom_aliases and build_negation_atom_aliases (lines 316 to 344)\<close>

definition alias_step_s :: "builtins \<Rightarrow> string \<Rightarrow> val \<Rightarrow> int \<Rightarrow> val \<Rightarrow> int prog" where
  "alias_step_s b fmt alias_list naming_index a =
     seq (getitem a (VStr ''name'')) (\<lambda>nm.
     seq (getitem nm (VInt 0)) (\<lambda>c.
     seq (call (\<lambda>h. py_lower b h c)) (\<lambda>lc.
     seq (call (\<lambda>h. py_format b h fmt [lc, VInt naming_index])) (\<lambda>alias_str.
     seq (list_append alias_list alias_str) (\<lambda>_.
       ret (naming_index + 1))))))"

definition build_atom_aliases_s :: "builtins \<Rightarrow> nat \<Rightarrow> val \<Rightarrow> val prog" where
  "build_atom_aliases_s b fuel body_atoms =
     seq (new_obj (OList [])) (\<lambda>body_atom_alias_list.
     seq (for_each fuel body_atoms (alias_step_s b ''{}_{}'' body_atom_alias_list) 0) (\<lambda>_.
       ret body_atom_alias_list))"

definition build_negation_atom_aliases_s :: "builtins \<Rightarrow> nat \<Rightarrow> val \<Rightarrow> val prog" where
  "build_negation_atom_aliases_s b fuel negation_atoms =
     seq (new_obj (OList [])) (\<lambda>negation_atom_aliases.
     seq (for_each fuel negation_atoms (alias_step_s b ''neg_{}_{}'' negation_atom_aliases) 0)
         (\<lambda>_.
       ret negation_atom_aliases))"

subsubsection \<open>build_recursive_atom_aliases (lines 351 to 375)\<close>

definition count_idb_s :: "builtins \<Rightarrow> val \<Rightarrow> val \<Rightarrow> int \<Rightarrow> val \<Rightarrow> int prog" where
  "count_idb_s b eval_idbs eval_names idb_n a =
     seq (getitem a (VStr ''name'')) (\<lambda>nm.
     seq (call (\<lambda>h. py_in b h nm eval_idbs)) (\<lambda>is_idb.
     seq (new_obj (OList [])) (\<lambda>atom_alias_list.
     seq (list_append eval_names atom_alias_list) (\<lambda>_.
       ret (if is_idb then idb_n + 1 else idb_n)))))"

definition fill_aliases_s :: "builtins \<Rightarrow> val \<Rightarrow> val \<Rightarrow> val \<Rightarrow> val \<Rightarrow> nat \<Rightarrow> unit prog" where
  "fill_aliases_s b body_atoms eval_idbs iter_num eval_names i =
     seq (getitem body_atoms (VInt (int i))) (\<lambda>a.
     seq (getitem a (VStr ''name'')) (\<lambda>atom_name.
     seq (getitem eval_names (VInt (int i))) (\<lambda>atom_alias_list.
     seq (call (\<lambda>h. py_in b h atom_name eval_idbs)) (\<lambda>is_idb.
       if \<not> is_idb then
         seq (new_obj (ODict [(VStr ''alias'', atom_name), (VStr ''type'', VStr ''default'')]))
             (\<lambda>e. list_append atom_alias_list e)
       else
         seq (call (\<lambda>h. py_format b h ''{}_prev'' [atom_name])) (\<lambda>prev_idb_name.
         seq (int_of iter_num) (\<lambda>it.
         seq (call (\<lambda>h. py_format b h ''{}_delta_{}'' [atom_name, VInt (it - 1)]))
             (\<lambda>delta_idb_name.
         seq (new_obj (ODict [(VStr ''alias'', prev_idb_name), (VStr ''type'', VStr ''prev'')]))
             (\<lambda>e1.
         seq (list_append atom_alias_list e1) (\<lambda>_.
         seq (new_obj (ODict [(VStr ''alias'', delta_idb_name), (VStr ''type'', VStr ''delta'')]))
             (\<lambda>e2.
           list_append atom_alias_list e2))))))))))"

definition build_recursive_atom_aliases_s ::
  "builtins \<Rightarrow> nat \<Rightarrow> val \<Rightarrow> val \<Rightarrow> val \<Rightarrow> val prog" where
  "build_recursive_atom_aliases_s b fuel body_atoms eval_idbs iter_num =
     seq (py_len body_atoms) (\<lambda>body_atom_num.
     seq (new_obj (OList [])) (\<lambda>eval_names.
     seq (for_each fuel body_atoms (count_idb_s b eval_idbs eval_names) 0) (\<lambda>idb_n.
     seq (for_range [0..<nat body_atom_num]
            (\<lambda>_ i. fill_aliases_s b body_atoms eval_idbs iter_num eval_names i) ()) (\<lambda>_.
       new_obj (ODict [(VStr ''body_atom_eval_names'', eval_names),
                       (VStr ''idb_num'', VInt idb_n)])))))"

subsubsection \<open>build_recursive_atom_alias_groups (lines 396 to 432)\<close>

definition first_groups_s :: "val \<Rightarrow> unit \<Rightarrow> val \<Rightarrow> unit prog" where
  "first_groups_s atom_eval_name_groups = (\<lambda>_ atom_eval_name.
     seq (new_obj (OList [atom_eval_name])) (\<lambda>gr. list_append atom_eval_name_groups gr))"

definition extend_first_s :: "val \<Rightarrow> unit \<Rightarrow> val \<Rightarrow> unit prog" where
  "extend_first_s atom_eval_names = (\<lambda>_ alias_group.
     seq (getitem atom_eval_names (VInt 0)) (\<lambda>x. list_append alias_group x))"

definition add_copies_s :: "nat \<Rightarrow> val \<Rightarrow> val \<Rightarrow> unit \<Rightarrow> nat \<Rightarrow> unit prog" where
  "add_copies_s limit atom_eval_name_groups groups_to_be_added = (\<lambda>_ i.
     seq (deepcopy limit atom_eval_name_groups) (\<lambda>c. list_append groups_to_be_added c))"

definition extend_copy_s :: "val \<Rightarrow> val \<Rightarrow> nat \<Rightarrow> unit \<Rightarrow> val \<Rightarrow> unit prog" where
  "extend_copy_s atom_eval_name_groups atom_eval_names k = (\<lambda>_ alias_group.
     seq (getitem atom_eval_names (VInt (int k + 1))) (\<lambda>x.
     seq (list_append alias_group x) (\<lambda>_.
       list_append atom_eval_name_groups alias_group)))"

definition extend_copies_s :: "nat \<Rightarrow> val \<Rightarrow> val \<Rightarrow> val \<Rightarrow> unit \<Rightarrow> nat \<Rightarrow> unit prog" where
  "extend_copies_s fuel atom_eval_name_groups groups_to_be_added atom_eval_names = (\<lambda>_ k.
     seq (getitem groups_to_be_added (VInt (int k))) (\<lambda>copied.
       for_each fuel copied (extend_copy_s atom_eval_name_groups atom_eval_names k) ()))"

definition group_atom_s :: "nat \<Rightarrow> nat \<Rightarrow> val \<Rightarrow> val \<Rightarrow> nat \<Rightarrow> unit prog" where
  "group_atom_s limit fuel atom_eval_name_groups eval_names_list atom_idx =
     seq (getitem eval_names_list (VInt (int atom_idx))) (\<lambda>atom_eval_names.
     seq (py_len atom_eval_name_groups) (\<lambda>group_num.
       if group_num = 0 then
         for_each fuel atom_eval_names (first_groups_s atom_eval_name_groups) ()
       else
         seq (py_len atom_eval_names) (\<lambda>name_num.
           if name_num > 1 then
             seq (new_obj (OList [])) (\<lambda>groups_to_be_added.
             seq (for_range [0..<nat (name_num - 1)]
                    (add_copies_s limit atom_eval_name_groups groups_to_be_added) ()) (\<lambda>_.
             seq (for_each fuel atom_eval_name_groups (extend_first_s atom_eval_names) ()) (\<lambda>_.
               for_range [0..<nat (name_num - 1)]
                 (extend_copies_s fuel atom_eval_name_groups groups_to_be_added
                    atom_eval_names) ())))
           else
             for_each fuel atom_eval_name_groups (extend_first_s atom_eval_names) ())))"

definition count_prev_s :: "builtins \<Rightarrow> int \<Rightarrow> val \<Rightarrow> int prog" where
  "count_prev_s b = (\<lambda>prev_count alias_entry.
     seq (getitem alias_entry (VStr ''type'')) (\<lambda>t.
     seq (eq_str b t ''prev'') (\<lambda>is_prev.
       ret (if is_prev then prev_count + 1 else prev_count))))"

definition remove_prev_s :: "builtins \<Rightarrow> nat \<Rightarrow> val \<Rightarrow> val \<Rightarrow> unit \<Rightarrow> val \<Rightarrow> unit prog" where
  "remove_prev_s b fuel atom_eval_name_groups idb_n = (\<lambda>_ alias_group.
     seq (for_each fuel alias_group (count_prev_s b) 0) (\<lambda>prev_count.
     seq (call (\<lambda>h. py_eq b h (VInt prev_count) idb_n)) (\<lambda>all_prev.
       if all_prev then list_remove b atom_eval_name_groups alias_group else skip)))"

definition build_recursive_atom_alias_groups_s ::
  "builtins \<Rightarrow> nat \<Rightarrow> nat \<Rightarrow> val \<Rightarrow> val \<Rightarrow> val prog" where
  "build_recursive_atom_alias_groups_s b limit fuel body_atoms atom_aliases_map =
     seq (py_len body_atoms) (\<lambda>body_atom_num.
     seq (getitem atom_aliases_map (VStr ''body_atom_eval_names'')) (\<lambda>eval_names_list.
     seq (getitem atom_aliases_map (VStr ''idb_num'')) (\<lambda>idb_n.
     seq (new_obj (OList [])) (\<lambda>atom_eval_name_groups.
     seq (for_range [0..<nat body_atom_num]
            (\<lambda>_ atom_idx. group_atom_s limit fuel atom_eval_name_groups
                             eval_names_list atom_idx) ()) (\<lambda>_.
     seq (for_each fuel atom_eval_name_groups
            (remove_prev_s b fuel atom_eval_name_groups idb_n) ()) (\<lambda>_.
       ret atom_eval_name_groups))))))"

section \<open>Specification-level notions\<close>

text \<open>
  What the specification says about a rule body, written without the dicts: the variable
  \<open>v\<close> occurs at argument position \<open>j\<close> of body atom \<open>i\<close>; the positions of \<open>v\<close> in one
  argument list, in increasing order; the atoms that hold \<open>v\<close>, in increasing order, each
  with its positions; the names of the variable arguments of the body.
\<close>

definition is_occurrence :: "atom list \<Rightarrow> string \<Rightarrow> nat \<Rightarrow> nat \<Rightarrow> bool" where
  "is_occurrence body_atoms v i j =
     (i < length body_atoms \<and> j < length (arg_list (body_atoms ! i)) \<and>
      arg_type (arg_list (body_atoms ! i) ! j) = ''variable'' \<and>
      arg_name (arg_list (body_atoms ! i) ! j) = v)"

definition var_positions :: "string \<Rightarrow> arg list \<Rightarrow> nat list" where
  "var_positions v args =
     filter (\<lambda>j. arg_type (args ! j) = ''variable'' \<and> arg_name (args ! j) = v) [0..<length args]"

definition var_occurrences :: "string \<Rightarrow> atom list \<Rightarrow> (nat \<times> nat list) list" where
  "var_occurrences v body_atoms =
     map (\<lambda>i. (i, var_positions v (arg_list (body_atoms ! i))))
       (filter (\<lambda>i. var_positions v (arg_list (body_atoms ! i)) \<noteq> []) [0..<length body_atoms])"

definition body_var_names :: "atom list \<Rightarrow> string set" where
  "body_var_names body_atoms =
     set (concat (map (\<lambda>b. map arg_name (filter (\<lambda>a. arg_type a = ''variable'') (arg_list b)))
                      body_atoms))"

text \<open>
  The occurrence \<open>(i, j)\<close> is recorded for \<open>v\<close> in an index.
\<close>

definition recorded :: "variable_arg_to_atom_map \<Rightarrow> string \<Rightarrow> nat \<Rightarrow> nat \<Rightarrow> bool" where
  "recorded m v i j =
     (case map_of m v of
        None \<Rightarrow> False
      | Some d \<Rightarrow> (case map_of d i of None \<Rightarrow> False | Some ps \<Rightarrow> j \<in> set ps))"

text \<open>
  The list stored under two keys in a dict of dicts of lists, empty when a key is missing.
\<close>

definition nested_get :: "('a \<times> ('b \<times> 'c list) list) list \<Rightarrow> 'a \<Rightarrow> 'b \<Rightarrow> 'c list" where
  "nested_get m k1 k2 =
     (case map_of m k1 of
        None \<Rightarrow> []
      | Some d \<Rightarrow> (case map_of d k2 of None \<Rightarrow> [] | Some l \<Rightarrow> l))"

text \<open>
  A comparison with no variable operand, and the exception raised for it (line 184).
\<close>

definition malformed :: "comparison \<Rightarrow> bool" where
  "malformed c = (snd (lhs c) \<noteq> ''var'' \<and> snd (rhs c) \<noteq> ''var'')"

definition validation_error :: py_error where
  "validation_error =
     Exception ''At least one side of the comparison has to be variable in the body relations''"

text \<open>
  The parser's contract for a comparison over a body: an operand is tagged \<open>var\<close> and
  names a variable of the positive body, or it is tagged \<open>num\<close> and \<open>float\<close> accepts it.
\<close>

definition operand_ok :: "(string \<Rightarrow> 'f option) \<Rightarrow> atom list \<Rightarrow> string \<times> string \<Rightarrow> bool" where
  "operand_ok pyfloat body_atoms x =
     ((snd x = ''var'' \<and> fst x \<in> body_var_names body_atoms) \<or>
      (snd x = ''num'' \<and> pyfloat (fst x) \<noteq> None))"

definition wf_comparison :: "(string \<Rightarrow> 'f option) \<Rightarrow> atom list \<Rightarrow> comparison \<Rightarrow> bool" where
  "wf_comparison pyfloat body_atoms c =
     (operand_ok pyfloat body_atoms (lhs c) \<and> operand_ok pyfloat body_atoms (rhs c))"

text \<open>
  The full product of the alias choices in atom order: every group of the running
  product is extended by the first choice of the next atom, then by its second choice,
  and so on.
\<close>

definition extend_product :: "'a list \<Rightarrow> 'a list list \<Rightarrow> 'a list list" where
  "extend_product choices groups = concat (map (\<lambda>c. map (\<lambda>g. g @ [c]) groups) choices)"

definition choice_product :: "'a list list \<Rightarrow> 'a list list" where
  "choice_product choice_lists = foldl (\<lambda>groups choices. extend_product choices groups) [[]] choice_lists"

text \<open>
  A program leaves the store it is started in unchanged: whenever it ends, with a value or
  with an exception, every object that existed before the call is at its address with its
  contents; the store has only grown.
\<close>

definition unchanged_by :: "'a prog \<Rightarrow> bool" where
  "unchanged_by m = (\<forall>h r h'. m h = Some (r, h') \<longrightarrow> take (length h) h' = h)"

subsection \<open>The value of a numeric literal\<close>




section \<open>Auxiliary definitions of the proofs\<close>

text \<open>
  The state of the indexer after the atoms below \<open>n\<close>, and within atom \<open>i\<close> after the
  argument positions below \<open>k\<close>; the loop body of \<open>scan_atom_args\<close>; a missing key for an
  empty occurrence list.
\<close>

definition pos_upto :: "nat \<Rightarrow> string \<Rightarrow> arg list \<Rightarrow> nat list" where
  "pos_upto k v args =
     filter (\<lambda>j. arg_type (args ! j) = ''variable'' \<and> arg_name (args ! j) = v) [0..<k]"

definition occ_upto :: "nat \<Rightarrow> string \<Rightarrow> atom list \<Rightarrow> (nat \<times> nat list) list" where
  "occ_upto n v body_atoms =
     map (\<lambda>i. (i, var_positions v (arg_list (body_atoms ! i))))
       (filter (\<lambda>i. var_positions v (arg_list (body_atoms ! i)) \<noteq> []) [0..<n])"

definition cur_entry :: "nat \<Rightarrow> nat list \<Rightarrow> (nat \<times> nat list) list" where
  "cur_entry i ps = (if ps = [] then [] else [(i, ps)])"

definition opt_of :: "'a list \<Rightarrow> 'a list option" where
  "opt_of xs = (if xs = [] then None else Some xs)"

definition scan_step :: "nat \<Rightarrow> arg list \<Rightarrow> nat \<Rightarrow> variable_arg_to_atom_map \<Rightarrow> variable_arg_to_atom_map" where
  "scan_step i args = (\<lambda>arg_idx acc.
             let a = args ! arg_idx
             in if arg_type a \<noteq> ''variable'' then acc
                else record_occurrence (arg_name a) i arg_idx acc)"

text \<open>
  What one comparison contributes: the position it attaches to and its record, or the
  exception it raises.
\<close>

definition comparison_record ::
  "(string \<Rightarrow> 'f option) \<Rightarrow> variable_arg_to_atom_map \<Rightarrow> comparison
     \<Rightarrow> py_error + (atom_arg_pair \<times> 'f comparison_struct)" where
  "comparison_record pyfloat m c =
     (if malformed c then Inl validation_error
      else (case search_and_subscript m (base_var c) of
              Inl e \<Rightarrow> Inl e
            | Inr p \<Rightarrow>
                (case build_comparison_struct pyfloat m (base_side c) (op c)
                        (compare_arg c) (compare_arg_type c) of
                   Inl e \<Rightarrow> Inl e
                 | Inr s \<Rightarrow> Inr (p, s))))"

text \<open>
  The alias list and the count of \<open>build_recursive_atom_aliases\<close>, atom by atom.
\<close>

definition atom_alias_choices :: "(string \<Rightarrow> 'r option) \<Rightarrow> int \<Rightarrow> atom \<Rightarrow> alias_entry list" where
  "atom_alias_choices ev iter_num a =
     (if ev (name a) = None then [\<lparr>alias_name = name a, alias_type = ''default''\<rparr>]
      else [\<lparr>alias_name = name a @ ''_prev'', alias_type = ''prev''\<rparr>,
            \<lparr>alias_name = name a @ ''_delta_'' @ str_int (iter_num - 1),
             alias_type = ''delta''\<rparr>])"

definition idb_count :: "(string \<Rightarrow> 'r option) \<Rightarrow> atom list \<Rightarrow> nat" where
  "idb_count ev body_atoms = length (filter (\<lambda>a. ev (name a) \<noteq> None) body_atoms)"

subsection \<open>Notions of the proofs about the store\<close>

text \<open>
  \<open>keeps n h h'\<close>: the objects below address \<open>n\<close> are the same in \<open>h'\<close>. \<open>triple n P m Q\<close>:
  started in a store of at least \<open>n\<close> objects that satisfies \<open>P\<close>, the program \<open>m\<close> keeps the
  objects below \<open>n\<close>, and the store satisfies \<open>Q\<close> when it returns a value.
\<close>

definition keeps :: "nat \<Rightarrow> heap \<Rightarrow> heap \<Rightarrow> bool" where
  "keeps n h h' = (length h \<le> length h' \<and> (\<forall>a < n. h' ! a = h ! a))"

definition triple :: "nat \<Rightarrow> (heap \<Rightarrow> bool) \<Rightarrow> 'a prog \<Rightarrow> ('a \<Rightarrow> heap \<Rightarrow> bool) \<Rightarrow> bool" where
  "triple n P m Q =
     (\<forall>h r h'. P h \<and> n \<le> length h \<and> m h = Some (r, h') \<longrightarrow>
        keeps n h h' \<and> (\<forall>x. r = Inr x \<longrightarrow> Q x h'))"

text \<open>
  A program that only reads the store.
\<close>

definition pure_op :: "'a prog \<Rightarrow> bool" where
  "pure_op m = (\<forall>h r h'. m h = Some (r, h') \<longrightarrow> h' = h)"

text \<open>A value read out of an object is one of the values the object holds.\<close>

definition from_obj :: "heap \<Rightarrow> val \<Rightarrow> val \<Rightarrow> bool" where
  "from_obj h v x =
     (case v of
        VRef a \<Rightarrow> a < length h \<and> x \<in> set (vals (h ! a))
      | _ \<Rightarrow> (\<forall>b. x \<noteq> VRef b))"

text \<open>
  A program that only creates objects: the store it is started in is kept.
\<close>

definition grow_only :: "'a prog \<Rightarrow> bool" where
  "grow_only m = (\<forall>h r h'. m h = Some (r, h') \<longrightarrow> keeps (length h) h h')"

text \<open>
  What a loop over a list knows of the element it is at: it is an element of the list
  as the list is at that step.
\<close>

definition elem_of :: "heap \<Rightarrow> val \<Rightarrow> val \<Rightarrow> bool" where
  "elem_of h v x = (\<forall>a l. v = VRef a \<longrightarrow> a < length h \<longrightarrow> h ! a = OList l \<longrightarrow> x \<in> set l)"

text \<open>
  The map the indexer builds, at address \<open>g\<close>: its values are dicts created after it, and
  their values are objects created after it. Every write of the indexer goes to one of
  these.
\<close>

definition inv2 :: "nat \<Rightarrow> heap \<Rightarrow> bool" where
  "inv2 g h =
     (g < length h \<and>
      (\<forall>b. VRef b \<in> set (vals (h ! g)) \<longrightarrow>
         g < b \<and> b < length h \<and> (\<forall>c. VRef c \<in> set (vals (h ! b)) \<longrightarrow> g < c)))"

text \<open>
  A container created by the function, at address \<open>g\<close>, whose values that are objects were
  created after it.
\<close>

definition inv1 :: "nat \<Rightarrow> heap \<Rightarrow> bool" where
  "inv1 g h = (g < length h \<and> (\<forall>c. VRef c \<in> set (vals (h ! g)) \<longrightarrow> g < c))"

text \<open>
  A property of the store that holds on when objects are created.
\<close>

definition stable :: "(heap \<Rightarrow> bool) \<Rightarrow> bool" where
  "stable I = (\<forall>h h'. I h \<longrightarrow> keeps (length h) h h' \<longrightarrow> I h')"

text \<open>
  The comparison map at \<open>g\<close> and the struct under construction at \<open>s\<close>, which is not yet in
  the map.
\<close>

definition inv2s :: "nat \<Rightarrow> nat \<Rightarrow> heap \<Rightarrow> bool" where
  "inv2s g s h = (inv2 g h \<and> g < s \<and> s < length h \<and> VRef s \<notin> set (vals (h ! g)))"

text \<open>
  The negation map at \<open>g\<close>: its values are dicts created at or after \<open>lo\<close>; their values are
  dicts created at or after \<open>lo\<close> that are not values of the negation map itself.
\<close>

definition inv3 :: "nat \<Rightarrow> nat \<Rightarrow> heap \<Rightarrow> bool" where
  "inv3 lo g h =
     (g < lo \<and> lo \<le> length h \<and>
      (\<forall>b. VRef b \<in> set (vals (h ! g)) \<longrightarrow>
         lo \<le> b \<and> b < length h \<and>
         (\<forall>c. VRef c \<in> set (vals (h ! b)) \<longrightarrow>
            lo \<le> c \<and> c < length h \<and> VRef c \<notin> set (vals (h ! g)))))"

text \<open>
  The first loop of \<open>extract_negation_map\<close>: the negation map at \<open>g1\<close> is filled, the
  anti-join map at \<open>g2\<close> is still empty; inside the loop over the arguments,
  \<open>negation_atom_map\<close> is a value of the negation map.
\<close>

definition neg_inv :: "nat \<Rightarrow> nat \<Rightarrow> heap \<Rightarrow> bool" where
  "neg_inv g1 g2 h = (inv3 (g2 + 1) g1 h \<and> g1 < g2 \<and> h ! g2 = ODict [])"

definition neg_atom_inv :: "nat \<Rightarrow> nat \<Rightarrow> val \<Rightarrow> heap \<Rightarrow> bool" where
  "neg_atom_inv g1 g2 nam h = (neg_inv g1 g2 h \<and> nam \<in> set (vals (h ! g1)))"

text \<open>
  The memo of \<open>deepcopy\<close> only grows, its new entries point to objects created by the
  copy, and the copy of a value is the value itself or the memo's entry for it.
\<close>

definition memo_le :: "memo \<Rightarrow> memo \<Rightarrow> bool" where
  "memo_le mm mm' = (\<forall>k t. map_of mm k = Some t \<longrightarrow> map_of mm' k = Some t)"

definition memo_new :: "memo \<Rightarrow> memo \<Rightarrow> nat \<Rightarrow> nat \<Rightarrow> bool" where
  "memo_new mm mm' lo hi =
     (\<forall>k t. map_of mm' k = Some t \<longrightarrow> map_of mm k = Some t \<or> (lo \<le> t \<and> t < hi))"

definition copy_of :: "memo \<Rightarrow> val \<Rightarrow> val \<Rightarrow> bool" where
  "copy_of mm v x =
     (case v of VRef a \<Rightarrow> (\<exists>t. x = VRef t \<and> map_of mm a = Some t) | _ \<Rightarrow> x = v)"

definition dc_ok :: "(memo \<Rightarrow> val \<Rightarrow> heap \<Rightarrow> (py_exc + val) \<times> memo \<times> heap) \<Rightarrow> bool" where
  "dc_ok cp =
     (\<forall>mm v h r mm' h'. cp mm v h = (r, mm', h') \<longrightarrow>
        keeps (length h) h h' \<and> memo_le mm mm' \<and> memo_new mm mm' (length h) (length h') \<and>
        (\<forall>x. r = Inr x \<longrightarrow> copy_of mm' v x))"

text \<open>
  The list of groups at \<open>g\<close>: a list whose elements that are objects were created after
  it.
\<close>

definition groups_inv :: "nat \<Rightarrow> heap \<Rightarrow> bool" where
  "groups_inv g h =
     (g < length h \<and>
      (\<exists>l. h ! g = OList l \<and> (\<forall>p. VRef p \<in> set l \<longrightarrow> g < p \<and> p < length h)))"

text \<open>
  The list \<open>groups_to_be_added\<close> at \<open>a\<close>: a list of copies, each one a list created after
  \<open>a\<close> whose elements that are objects were created after \<open>a\<close> and are none of the
  copies.
\<close>

definition copies_inv :: "nat \<Rightarrow> heap \<Rightarrow> bool" where
  "copies_inv a h =
     (a < length h \<and>
      (\<exists>cs. h ! a = OList cs \<and>
         (\<forall>x\<in>set cs. \<exists>c zs. x = VRef c \<and> a < c \<and> c < length h \<and> h ! c = OList zs \<and>
            (\<forall>q. VRef q \<in> set zs \<longrightarrow> a < q \<and> q < length h \<and> VRef q \<notin> set cs))))"

text \<open>
  The branch that splits the groups (lines 407 to 418): \<open>split_inv\<close> holds throughout;
  \<open>before_inv\<close> holds until the groups of the copies are entered in the list of groups:
  until then the groups were all created before the list of copies.
\<close>

definition split_inv :: "nat \<Rightarrow> nat \<Rightarrow> heap \<Rightarrow> bool" where
  "split_inv g a h = (groups_inv g h \<and> g < a \<and> copies_inv a h)"

definition before_inv :: "nat \<Rightarrow> nat \<Rightarrow> heap \<Rightarrow> bool" where
  "before_inv g a h =
     (split_inv g a h \<and> (\<forall>p. VRef p \<in> set (vals (h ! g)) \<longrightarrow> p < a))"

text \<open>
  The store after \<open>deepcopy(atom_eval_name_groups)\<close>: the copy is a new list whose
  elements that are objects are new as well.
\<close>

definition copied :: "nat \<Rightarrow> nat \<Rightarrow> val \<Rightarrow> heap \<Rightarrow> bool" where
  "copied g a c h1 =
     (\<exists>h. before_inv g a h \<and> keeps (length h) h h1 \<and> c = VRef (length h) \<and>
          length h < length h1 \<and>
          (\<exists>zs. h1 ! length h = OList zs \<and>
                (\<forall>t. VRef t \<in> set zs \<longrightarrow> length h < t \<and> t < length h1)))"

text \<open>
  The loop over one copy \<open>c\<close> (lines 416 to 418), and what is known of a group of the copy
  between its two appends.
\<close>

definition copy_inv :: "nat \<Rightarrow> nat \<Rightarrow> val \<Rightarrow> heap \<Rightarrow> bool" where
  "copy_inv g a c h = (split_inv g a h \<and> c \<in> set (vals (h ! a)))"

definition group_of_copy :: "nat \<Rightarrow> nat \<Rightarrow> val \<Rightarrow> val \<Rightarrow> heap \<Rightarrow> bool" where
  "group_of_copy g a c grp h =
     (copy_inv g a c h \<and>
      (\<forall>q. grp = VRef q \<longrightarrow> a < q \<and> q < length h \<and> VRef q \<notin> set (vals (h ! a))))"

section \<open>Example rules\<close>

text \<open>
  The bodies \<open>Edge(x, y)\<close> and \<open>Edge(x, y), Edge(y, z)\<close>, the negated atom
  \<open>!Edge(x, w)\<close>, the comparisons \<open>x > 5\<close>, \<open>3 < 5\<close> and \<open>x < y\<close>, and a stand-in for
  \<open>float\<close> that accepts two literals.
\<close>

definition edge_xy :: "atom list" where
  "edge_xy = [mk_atom ''Edge'' [var ''x'', var ''y'']]"

definition edge_path :: "atom list" where
  "edge_path = [mk_atom ''Edge'' [var ''x'', var ''y''], mk_atom ''Edge'' [var ''y'', var ''z'']]"

definition not_edge_xw :: "atom list" where
  "not_edge_xw = [mk_atom ''Edge'' [var ''x'', var ''w'']]"

definition digit_float :: "string \<Rightarrow> int option" where
  "digit_float s = (if s = ''5'' then Some 5 else if s = ''3'' then Some 3 else None)"

definition x_gt_5 :: comparison where
  "x_gt_5 = \<lparr>lhs = (''x'', ''var''), rhs = (''5'', ''num''), op = ''>''\<rparr>"

definition three_lt_5 :: comparison where
  "three_lt_5 = \<lparr>lhs = (''3'', ''num''), rhs = (''5'', ''num''), op = ''<''\<rparr>"

definition x_lt_y :: comparison where
  "x_lt_y = \<lparr>lhs = (''x'', ''var''), rhs = (''y'', ''var''), op = ''<''\<rparr>"




subsection \<open>An example store\<close>

text \<open>
  The rule with the body \<open>Edge(x, y), Path(x, y)\<close>, its index, the comparison \<open>x < y\<close> and
  the alias map of the body with \<open>Path\<close> evaluated recursively, as objects of a store, and
  an instance of the five builtins.
\<close>

fun fill :: "string \<Rightarrow> string list \<Rightarrow> string" where
  "fill (c # d # cs) args =
     (if c = CHR ''{'' \<and> d = CHR ''}''
      then (case args of [] \<Rightarrow> fill cs [] | a # as \<Rightarrow> a @ fill cs as)
      else c # fill (d # cs) args)"
| "fill cs args = cs"

definition str_val :: "val \<Rightarrow> string" where
  "str_val v = (case v of VStr s \<Rightarrow> s | VInt i \<Rightarrow> str_int i | VNone \<Rightarrow> ''None''
                | VRef a \<Rightarrow> ''object'')"

definition lower_char :: "char \<Rightarrow> char" where
  "lower_char c =
     (if 65 \<le> (of_char c :: nat) \<and> (of_char c :: nat) \<le> 90
      then char_of ((of_char c :: nat) + 32) else c)"

definition member_of :: "heap \<Rightarrow> val \<Rightarrow> val \<Rightarrow> py_exc + bool" where
  "member_of h x c =
     (case c of
        VRef a \<Rightarrow>
          if a < length h then
            (case h ! a of
               OList l \<Rightarrow> Inr (x \<in> set l)
             | ODict d \<Rightarrow> Inr (x \<in> set (map fst d))
             | OInst t n \<Rightarrow> Inl TypeErr)
          else Inl TypeErr
      | _ \<Rightarrow> Inl TypeErr)"

definition example_builtins :: builtins where
  "example_builtins =
     \<lparr>py_eq = (\<lambda>h x y. Inr (x = y)),
      py_in = member_of,
      py_format = (\<lambda>h fmt args. Inr (VStr (fill fmt (map str_val args)))),
      py_lower = (\<lambda>h v. case v of VStr s \<Rightarrow> Inr (VStr (map lower_char s))
                          | _ \<Rightarrow> Inl AttributeErr),
      py_float = (\<lambda>h v. case v of VStr s \<Rightarrow> Inr (VStr s) | VInt i \<Rightarrow> Inr (VInt i)
                          | _ \<Rightarrow> Inl TypeErr)\<rparr>"

definition rule_store :: heap where
  "rule_store =
     [OInst (VStr ''variable'') (VStr ''x''),
      OInst (VStr ''variable'') (VStr ''y''),
      OList [VRef 0, VRef 1],
      ODict [(VStr ''name'', VStr ''Edge''), (VStr ''arg_list'', VRef 2)],
      ODict [(VStr ''name'', VStr ''Path''), (VStr ''arg_list'', VRef 2)],
      OList [VRef 3, VRef 4],
      OList [VStr ''Path''],
      ODict [(VStr ''x'', VRef 8), (VStr ''y'', VRef 10)],
      ODict [(VInt 0, VRef 9), (VInt 1, VRef 9)],
      OList [VInt 0],
      ODict [(VInt 0, VRef 11), (VInt 1, VRef 11)],
      OList [VInt 1],
      OList [VStr ''x'', VStr ''var''],
      OList [VStr ''y'', VStr ''var''],
      ODict [(VStr ''lhs'', VRef 12), (VStr ''rhs'', VRef 13), (VStr ''op'', VStr ''<'')],
      OList [VRef 14],
      ODict [(VStr ''alias'', VStr ''Edge''), (VStr ''type'', VStr ''default'')],
      ODict [(VStr ''alias'', VStr ''Path_prev''), (VStr ''type'', VStr ''prev'')],
      ODict [(VStr ''alias'', VStr ''Path_delta_0''), (VStr ''type'', VStr ''delta'')],
      OList [VRef 16],
      OList [VRef 17, VRef 18],
      OList [VRef 19, VRef 20],
      ODict [(VStr ''body_atom_eval_names'', VRef 21), (VStr ''idb_num'', VInt 1)]]"

definition returns_on :: "'a prog \<Rightarrow> heap \<Rightarrow> bool" where
  "returns_on m h = (case m h of Some (Inr x, h') \<Rightarrow> True | _ \<Rightarrow> False)"

definition kept_on :: "'a prog \<Rightarrow> heap \<Rightarrow> bool" where
  "kept_on m h = (case m h of Some (Inr x, h') \<Rightarrow> take (length h) h' = h | _ \<Rightarrow> False)"

section \<open>Lemmas\<close>

lemma update_append_notin:
  "k \<notin> fst ` set A \<Longrightarrow> AList.update k v (A @ B) = A @ AList.update k v B"
  by (induction A) auto

lemma map_of_append_notin:
  "k \<notin> fst ` set A \<Longrightarrow> map_of (A @ B) k = map_of B k"
  by (induction A) auto

lemma push_ensure_entry:
  "push_entry k1 k2 x (ensure_entry k1 k2 m) =
     (let inner = (case map_of m k1 of None \<Rightarrow> [] | Some d \<Rightarrow> d);
          l = (case map_of inner k2 of None \<Rightarrow> [] | Some l \<Rightarrow> l)
      in AList.update k1 (AList.update k2 (l @ [x]) inner) m)"
  by (auto simp: push_entry_def ensure_entry_def Let_def AList.update_conv'
      split: option.splits)

lemma record_occurrence_other:
  "v' \<noteq> v \<Longrightarrow> map_of (record_occurrence v i j m) v' = map_of m v'"
  by (simp add: record_occurrence_def push_ensure_entry Let_def AList.update_conv')

lemma record_occurrence_same:
  "map_of (record_occurrence v i j m) v =
     Some (let inner = (case map_of m v of None \<Rightarrow> [] | Some d \<Rightarrow> d);
               ps = (case map_of inner i of None \<Rightarrow> [] | Some l \<Rightarrow> l)
           in AList.update i (ps @ [j]) inner)"
  by (simp add: record_occurrence_def push_ensure_entry Let_def AList.update_conv')

lemma record_occurrence_distinct:
  "distinct (map fst m) \<Longrightarrow> distinct (map fst (record_occurrence v i j m))"
  by (simp add: record_occurrence_def push_ensure_entry Let_def AList.distinct_update)

lemma occ_upto_keys: "fst ` set (occ_upto n v body) \<subseteq> {0..<n}"
  by (auto simp: occ_upto_def)

lemma record_occurrence_step:
  assumes "map_of m v = opt_of (occ_upto i v body @ cur_entry i ps)"
  shows "map_of (record_occurrence v i j m) v =
           opt_of (occ_upto i v body @ cur_entry i (ps @ [j]))"
proof -
  have notin: "i \<notin> fst ` set (occ_upto i v body)"
    using occ_upto_keys [of i v body] by auto
  let ?inner = "case map_of m v of None \<Rightarrow> [] | Some d \<Rightarrow> d"
  have inner: "?inner = occ_upto i v body @ cur_entry i ps"
    using assms by (simp add: opt_of_def split: if_splits)
  have "map_of ?inner i = map_of (cur_entry i ps) i"
    unfolding inner by (rule map_of_append_notin [OF notin])
  then have ps: "(case map_of ?inner i of None \<Rightarrow> [] | Some l \<Rightarrow> l) = ps"
    by (simp add: cur_entry_def)
  have "AList.update i (ps @ [j]) ?inner =
          occ_upto i v body @ AList.update i (ps @ [j]) (cur_entry i ps)"
    unfolding inner by (rule update_append_notin [OF notin])
  then have "AList.update i (ps @ [j]) ?inner = occ_upto i v body @ cur_entry i (ps @ [j])"
    by (simp add: cur_entry_def)
  then show ?thesis
    by (simp add: record_occurrence_same ps Let_def opt_of_def cur_entry_def)
qed

lemma pos_upto_Suc:
  "pos_upto (Suc k) v args =
     pos_upto k v args @
       (if arg_type (args ! k) = ''variable'' \<and> arg_name (args ! k) = v then [k] else [])"
  by (simp add: pos_upto_def)

lemma scan_step_inv:
  assumes "\<forall>v. map_of m v = opt_of (occ_upto i v body @ cur_entry i (pos_upto k v args))"
  shows "map_of (scan_step i args k m) v =
           opt_of (occ_upto i v body @ cur_entry i (pos_upto (Suc k) v args))"
proof (cases "arg_type (args ! k) = ''variable''")
  case False
  then show ?thesis using assms by (simp add: scan_step_def pos_upto_Suc)
next
  case True
  show ?thesis
  proof (cases "arg_name (args ! k) = v")
    case same: True
    have "map_of (record_occurrence v i k m) v =
            opt_of (occ_upto i v body @ cur_entry i (pos_upto k v args @ [k]))"
      using assms by (intro record_occurrence_step) simp
    then show ?thesis using True same by (simp add: scan_step_def pos_upto_Suc)
  next
    case False
    then show ?thesis
      using True assms by (simp add: scan_step_def pos_upto_Suc record_occurrence_other)
  qed
qed

lemma scan_prefix_inv:
  assumes "\<forall>v. map_of m v = opt_of (occ_upto i v body)"
  shows "\<forall>v. map_of (fold (scan_step i args) [0..<k] m) v =
           opt_of (occ_upto i v body @ cur_entry i (pos_upto k v args))"
proof (induction k)
  case 0
  then show ?case using assms by (simp add: pos_upto_def cur_entry_def)
next
  case (Suc k)
  then show ?case by (simp add: scan_step_inv)
qed

lemma occ_upto_Suc:
  "occ_upto (Suc i) v body =
     occ_upto i v body @ cur_entry i (var_positions v (arg_list (body ! i)))"
  by (simp add: occ_upto_def cur_entry_def)

lemma scan_atom_args_inv:
  assumes "\<forall>v. map_of m v = opt_of (occ_upto i v body)"
  shows "map_of (scan_atom_args i (arg_list (body ! i)) m) v = opt_of (occ_upto (Suc i) v body)"
proof -
  have "scan_atom_args i (arg_list (body ! i)) m =
          fold (scan_step i (arg_list (body ! i))) [0..<length (arg_list (body ! i))] m"
    by (simp add: scan_atom_args_def scan_step_def)
  moreover have "pos_upto (length (arg_list (body ! i))) v (arg_list (body ! i)) =
                   var_positions v (arg_list (body ! i))"
    by (simp add: pos_upto_def var_positions_def)
  ultimately show ?thesis
    using scan_prefix_inv [OF assms, of "arg_list (body ! i)" "length (arg_list (body ! i))"]
    by (simp add: occ_upto_Suc)
qed

lemma extract_prefix_inv:
  "\<forall>v. map_of (fold (\<lambda>atom_idx acc. scan_atom_args atom_idx (arg_list (body ! atom_idx)) acc)
                [0..<n] []) v = opt_of (occ_upto n v body)"
proof (induction n)
  case 0
  then show ?case by (simp add: occ_upto_def opt_of_def)
next
  case (Suc n)
  then show ?case by (simp add: scan_atom_args_inv)
qed

lemma map_of_extract:
  "map_of (extract_variable_arg_to_atom_map body) v = opt_of (var_occurrences v body)"
  using extract_prefix_inv [of body "length body"]
  by (simp add: extract_variable_arg_to_atom_map_def occ_upto_def var_occurrences_def)

lemma scan_atom_args_distinct:
  "distinct (map fst m) \<Longrightarrow> distinct (map fst (scan_atom_args i args m))"
proof -
  have "distinct (map fst m) \<Longrightarrow> distinct (map fst (fold (scan_step i args) ks m))" for ks
    by (induction ks arbitrary: m) (simp_all add: scan_step_def Let_def record_occurrence_distinct)
  then show "distinct (map fst m) \<Longrightarrow> distinct (map fst (scan_atom_args i args m))"
    by (simp add: scan_atom_args_def scan_step_def)
qed

lemma extract_distinct: "distinct (map fst (extract_variable_arg_to_atom_map body))"
proof -
  have "distinct (map fst m) \<Longrightarrow>
        distinct (map fst (fold (\<lambda>atom_idx acc. scan_atom_args atom_idx (arg_list (body ! atom_idx)) acc) ks m))"
    for ks m
    by (induction ks arbitrary: m) (simp_all add: scan_atom_args_distinct)
  then show ?thesis by (simp add: extract_variable_arg_to_atom_map_def)
qed

lemma var_positions_set:
  "set (var_positions v args) =
     {j. j < length args \<and> arg_type (args ! j) = ''variable'' \<and> arg_name (args ! j) = v}"
  by (auto simp: var_positions_def)

lemma var_occurrences_nonempty_iff:
  "var_occurrences v body \<noteq> [] \<longleftrightarrow> v \<in> body_var_names body"
proof
  assume "var_occurrences v body \<noteq> []"
  then obtain i where i: "i < length body" "var_positions v (arg_list (body ! i)) \<noteq> []"
    by (auto simp: var_occurrences_def filter_empty_conv)
  then obtain j where "j \<in> set (var_positions v (arg_list (body ! i)))"
    by (cases "var_positions v (arg_list (body ! i))") auto
  then have j: "j < length (arg_list (body ! i))"
    "arg_type (arg_list (body ! i) ! j) = ''variable''"
    "arg_name (arg_list (body ! i) ! j) = v"
    by (simp_all add: var_positions_set)
  have "body ! i \<in> set body" using i(1) by simp
  moreover have "arg_list (body ! i) ! j \<in> set (arg_list (body ! i))" using j(1) by simp
  ultimately show "v \<in> body_var_names body"
    unfolding body_var_names_def using j(2,3) by force
next
  assume "v \<in> body_var_names body"
  then obtain a b where ab: "b \<in> set body" "a \<in> set (arg_list b)" "arg_type a = ''variable''"
    "arg_name a = v"
    by (auto simp: body_var_names_def)
  from ab(1) obtain i where i: "i < length body" "body ! i = b"
    by (auto simp: in_set_conv_nth)
  from ab(2) obtain j where j: "j < length (arg_list b)" "arg_list b ! j = a"
    by (auto simp: in_set_conv_nth)
  have "j \<in> set (var_positions v (arg_list (body ! i)))"
    using ab i j by (simp add: var_positions_set)
  then have "var_positions v (arg_list (body ! i)) \<noteq> []" by auto
  then show "var_occurrences v body \<noteq> []"
    using i(1) by (auto simp: var_occurrences_def filter_empty_conv)
qed

lemma extract_keys:
  "fst ` set (extract_variable_arg_to_atom_map body) = body_var_names body"
proof -
  have "fst ` set (extract_variable_arg_to_atom_map body) =
          dom (map_of (extract_variable_arg_to_atom_map body))"
    by (simp add: dom_map_of_conv_image_fst)
  also have "\<dots> = {v. var_occurrences v body \<noteq> []}"
    by (auto simp: map_of_extract opt_of_def dom_def)
  finally show ?thesis by (simp add: var_occurrences_nonempty_iff)
qed

lemma var_positions_sorted: "sorted_wrt (<) (var_positions v args)"
  by (simp add: var_positions_def sorted_wrt_filter)

lemma var_occurrences_sorted: "sorted_wrt (<) (map fst (var_occurrences v body))"
proof -
  have "map fst (var_occurrences v body) =
          filter (\<lambda>i. var_positions v (arg_list (body ! i)) \<noteq> []) [0..<length body]"
    by (simp add: var_occurrences_def comp_def)
  then show ?thesis by (simp add: sorted_wrt_filter)
qed

lemma var_occurrences_entry:
  "(i, ps) \<in> set (var_occurrences v body) \<longleftrightarrow>
     i < length body \<and> ps = var_positions v (arg_list (body ! i)) \<and> ps \<noteq> []"
  by (auto simp: var_occurrences_def)

lemma var_positions_occurrence:
  "i < length body \<Longrightarrow>
   j \<in> set (var_positions v (arg_list (body ! i))) \<longleftrightarrow> is_occurrence body v i j"
  by (simp add: var_positions_set is_occurrence_def)

lemma map_of_var_occurrences:
  "map_of (var_occurrences v body) i =
     (if i < length body \<and> var_positions v (arg_list (body ! i)) \<noteq> []
      then Some (var_positions v (arg_list (body ! i))) else None)"
proof -
  have d: "distinct (map fst (var_occurrences v body))"
    using var_occurrences_sorted [of v body] by (simp add: strict_sorted_iff)
  show ?thesis
  proof (cases "i < length body \<and> var_positions v (arg_list (body ! i)) \<noteq> []")
    case True
    then have "(i, var_positions v (arg_list (body ! i))) \<in> set (var_occurrences v body)"
      by (simp add: var_occurrences_entry)
    then show ?thesis using True d by simp
  next
    case False
    then have "i \<notin> fst ` set (var_occurrences v body)"
      by (auto simp: var_occurrences_entry)
    then have "map_of (var_occurrences v body) i = None"
      by (simp add: map_of_eq_None_iff)
    then show ?thesis using False by auto
  qed
qed

lemma recorded_extract:
  "recorded (extract_variable_arg_to_atom_map body) v i j = is_occurrence body v i j"
proof -
  let ?occ = "var_occurrences v body"
  have "recorded (extract_variable_arg_to_atom_map body) v i j =
          (case map_of ?occ i of None \<Rightarrow> False | Some ps \<Rightarrow> j \<in> set ps)"
    by (cases "?occ = []") (simp_all add: recorded_def map_of_extract opt_of_def)
  also have "\<dots> = is_occurrence body v i j"
  proof (cases "i < length body")
    case True
    show ?thesis
      using var_positions_occurrence [OF True, of j v]
      by (auto simp: map_of_var_occurrences True)
  next
    case False
    then show ?thesis by (simp add: map_of_var_occurrences is_occurrence_def)
  qed
  finally show ?thesis .
qed

lemma first_atom_arg_pair_hd:
  assumes "occ \<noteq> []" "\<forall>(i, ps) \<in> set occ. ps \<noteq> []"
  shows "first_atom_arg_pair occ =
           Some \<lparr>atom_index = fst (hd occ), arg_index = hd (snd (hd occ))\<rparr>"
proof (cases occ)
  case Nil
  then show ?thesis using assms by simp
next
  case (Cons e rest)
  obtain i ps where e: "e = (i, ps)" by (cases e)
  then have "ps \<noteq> []" using assms(2) Cons by auto
  then obtain j js where "ps = j # js" by (cases ps) auto
  then show ?thesis using Cons e by simp
qed

lemma search_extract_first:
  assumes "v \<in> body_var_names body"
  shows "\<exists>p. search_argument_mapping_in_body_atoms (extract_variable_arg_to_atom_map body) v
               = Inr (Some p) \<and>
             is_occurrence body v (atom_index p) (arg_index p) \<and>
             (\<forall>i j. is_occurrence body v i j \<longrightarrow>
                atom_index p < i \<or> (atom_index p = i \<and> arg_index p \<le> j))"
proof -
  let ?occ = "var_occurrences v body"
  have ne: "?occ \<noteq> []" using assms by (simp add: var_occurrences_nonempty_iff)
  then obtain i0 ps0 rest where occ: "?occ = (i0, ps0) # rest"
    by (cases ?occ) auto
  have "(i0, ps0) \<in> set ?occ" by (simp add: occ)
  then have e0: "i0 < length body" "var_positions v (arg_list (body ! i0)) = ps0" "ps0 \<noteq> []"
    by (auto simp: var_occurrences_entry)
  from e0(3) obtain j0 js where ps0: "ps0 = j0 # js" by (cases ps0) auto
  have vp: "var_positions v (arg_list (body ! i0)) = j0 # js"
    using e0(2) ps0 by simp
  let ?p = "\<lparr>atom_index = i0, arg_index = j0\<rparr>"
  have s: "search_argument_mapping_in_body_atoms (extract_variable_arg_to_atom_map body) v
             = Inr (Some ?p)"
    using ne by (simp add: search_argument_mapping_in_body_atoms_def map_of_extract opt_of_def
        occ ps0)
  have "j0 \<in> set (var_positions v (arg_list (body ! i0)))"
    by (simp add: vp)
  then have o: "is_occurrence body v i0 j0"
    using var_positions_occurrence [OF e0(1)] by simp
  have least: "atom_index ?p < i \<or> (atom_index ?p = i \<and> arg_index ?p \<le> j)"
    if ij: "is_occurrence body v i j" for i j
  proof -
    have i: "i < length body" using ij by (simp add: is_occurrence_def)
    have jin: "j \<in> set (var_positions v (arg_list (body ! i)))"
      using ij var_positions_occurrence [OF i] by simp
    then have "(i, var_positions v (arg_list (body ! i))) \<in> set ?occ"
      by (auto simp: var_occurrences_entry i)
    then have "i = i0 \<or> i \<in> fst ` set rest"
      unfolding occ by force
    moreover have "\<forall>k \<in> fst ` set rest. i0 < k"
      using var_occurrences_sorted [of v body] unfolding occ by simp
    moreover have "j0 \<le> j" if "i = i0"
    proof -
      have "j \<in> set (j0 # js)" using jin that vp by simp
      moreover have "sorted_wrt (<) (j0 # js)"
        using var_positions_sorted [of v "arg_list (body ! i0)"] vp by simp
      ultimately show ?thesis by auto
    qed
    ultimately show ?thesis by auto
  qed
  show ?thesis
  proof (intro exI [of _ ?p] conjI allI impI)
    show "search_argument_mapping_in_body_atoms (extract_variable_arg_to_atom_map body) v
            = Inr (Some ?p)"
      by (rule s)
    show "is_occurrence body v (atom_index ?p) (arg_index ?p)"
      using o by simp
    fix i j
    assume "is_occurrence body v i j"
    then show "atom_index ?p < i \<or> (atom_index ?p = i \<and> arg_index ?p \<le> j)"
      by (rule least)
  qed
qed

lemma update_append_new:
  "k \<notin> fst ` set A \<Longrightarrow> AList.update k v A = A @ [(k, v)]"
  by (induction A) auto

lemma join_fold_filter:
  assumes "distinct (map fst (acc @ m))"
  shows "fold (\<lambda>(var_name, d) join_map.
             if join_on_var d then AList.update var_name d join_map else join_map) m
           (filter (\<lambda>(var_name, d). join_on_var d) acc)
         = filter (\<lambda>(var_name, d). join_on_var d) (acc @ m)"
  using assms
proof (induction m arbitrary: acc)
  case Nil
  then show ?case by simp
next
  case (Cons e m)
  obtain k d where e: "e = (k, d)" by (cases e)
  have d: "distinct (map fst ((acc @ [e]) @ m))" using Cons.prems by simp
  have notin: "k \<notin> fst ` set (filter (\<lambda>(var_name, d). join_on_var d) acc)"
    using Cons.prems e by auto
  show ?case
  proof (cases "join_on_var d")
    case True
    then show ?thesis
      using Cons.IH [OF d] e update_append_new [OF notin, of d] by simp
  next
    case False
    then show ?thesis using Cons.IH [OF d] e by simp
  qed
qed

lemma extract_join_map_filter:
  "distinct (map fst m) \<Longrightarrow>
   extract_join_map m = filter (\<lambda>(var_name, d). join_on_var d) m"
  using join_fold_filter [of "[]" m] by (simp add: extract_join_map_def)

lemma map_of_filter_snd:
  "distinct (map fst m) \<Longrightarrow>
   map_of (filter (\<lambda>(k, d). P d) m) v =
     (case map_of m v of None \<Rightarrow> None | Some d \<Rightarrow> if P d then Some d else None)"
proof (induction m)
  case Nil
  then show ?case by simp
next
  case (Cons e m)
  obtain k d where e: "e = (k, d)" by (cases e)
  have "k \<notin> fst ` set m" using Cons.prems e by auto
  then have "map_of m k = None" by (simp add: map_of_eq_None_iff)
  then show ?case using Cons e by (auto split: option.splits)
qed

lemma map_of_extract_join_map:
  "distinct (map fst m) \<Longrightarrow>
   map_of (extract_join_map m) v =
     (case map_of m v of None \<Rightarrow> None | Some d \<Rightarrow> if join_on_var d then Some d else None)"
  by (simp add: extract_join_map_filter map_of_filter_snd)

lemma occurrence_atoms_card:
  "card {i. \<exists>j. is_occurrence body v i j} = length (var_occurrences v body)"
proof -
  let ?ks = "filter (\<lambda>i. var_positions v (arg_list (body ! i)) \<noteq> []) [0..<length body]"
  have "{i. \<exists>j. is_occurrence body v i j} = set ?ks"
  proof (rule set_eqI)
    fix i
    show "i \<in> {i. \<exists>j. is_occurrence body v i j} \<longleftrightarrow> i \<in> set ?ks"
    proof (cases "i < length body")
      case True
      have "{j. is_occurrence body v i j} = set (var_positions v (arg_list (body ! i)))"
        using var_positions_occurrence [OF True, of _ v] by auto
      moreover have "(\<exists>j. is_occurrence body v i j) \<longleftrightarrow> {j. is_occurrence body v i j} \<noteq> {}"
        by auto
      ultimately have "(\<exists>j. is_occurrence body v i j) \<longleftrightarrow>
                   var_positions v (arg_list (body ! i)) \<noteq> []"
        by simp
      then show ?thesis using True by simp
    next
      case False
      then show ?thesis by (simp add: is_occurrence_def)
    qed
  qed
  then have "card {i. \<exists>j. is_occurrence body v i j} = card (set ?ks)"
    by (rule arg_cong)
  also have "\<dots> = length ?ks"
    by (rule distinct_card) simp
  finally have "card {i. \<exists>j. is_occurrence body v i j} = length ?ks" .
  then show ?thesis by (simp add: var_occurrences_def)
qed

lemma occurrence_positions_card:
  "card {j. is_occurrence body v i j} =
     (if i < length body then length (var_positions v (arg_list (body ! i))) else 0)"
proof (cases "i < length body")
  case True
  have "{j. is_occurrence body v i j} = set (var_positions v (arg_list (body ! i)))"
    using var_positions_occurrence [OF True, of _ v] by auto
  then have "card {j. is_occurrence body v i j} =
               card (set (var_positions v (arg_list (body ! i))))"
    by (rule arg_cong)
  also have "\<dots> = length (var_positions v (arg_list (body ! i)))"
    by (rule distinct_card) (simp add: var_positions_def)
  finally show ?thesis using True by simp
next
  case False
  then show ?thesis by (simp add: is_occurrence_def)
qed

lemma join_on_var_occurrences:
  "join_on_var (var_occurrences v body) \<longleftrightarrow>
     1 < card {i. \<exists>j. is_occurrence body v i j} \<or>
     (\<exists>i. 1 < card {j. is_occurrence body v i j})"
proof -
  have "list_ex (\<lambda>(atom_idx, positions). 1 < length positions) (var_occurrences v body) \<longleftrightarrow>
          (\<exists>i. 1 < card {j. is_occurrence body v i j})"
  proof
    assume "list_ex (\<lambda>(atom_idx, positions). 1 < length positions) (var_occurrences v body)"
    then obtain i ps where "(i, ps) \<in> set (var_occurrences v body)" "1 < length ps"
      by (auto simp: list_ex_iff)
    then have "i < length body" "1 < length (var_positions v (arg_list (body ! i)))"
      by (auto simp: var_occurrences_entry)
    then have "1 < card {j. is_occurrence body v i j}"
      by (simp add: occurrence_positions_card)
    then show "\<exists>i. 1 < card {j. is_occurrence body v i j}" ..
  next
    assume "\<exists>i. 1 < card {j. is_occurrence body v i j}"
    then obtain i where i: "1 < card {j. is_occurrence body v i j}" ..
    then have lt: "i < length body" and len: "1 < length (var_positions v (arg_list (body ! i)))"
      by (auto simp: occurrence_positions_card split: if_splits)
    from len have "var_positions v (arg_list (body ! i)) \<noteq> []" by auto
    then have "(i, var_positions v (arg_list (body ! i))) \<in> set (var_occurrences v body)"
      using lt by (simp add: var_occurrences_entry)
    then show "list_ex (\<lambda>(atom_idx, positions). 1 < length positions) (var_occurrences v body)"
      using len by (auto simp: list_ex_iff)
  qed
  then show ?thesis by (simp add: join_on_var_def occurrence_atoms_card)
qed

lemma join_keys_body:
  "v \<in> fst ` set (extract_join_map (extract_variable_arg_to_atom_map body)) \<longleftrightarrow>
     1 < card {i. \<exists>j. is_occurrence body v i j} \<or>
     (\<exists>i. 1 < card {j. is_occurrence body v i j})"
proof -
  let ?m = "extract_variable_arg_to_atom_map body"
  have "v \<in> fst ` set (extract_join_map ?m) \<longleftrightarrow> map_of (extract_join_map ?m) v \<noteq> None"
    by (simp add: map_of_eq_None_iff)
  also have "\<dots> \<longleftrightarrow> var_occurrences v body \<noteq> [] \<and> join_on_var (var_occurrences v body)"
    by (simp add: map_of_extract_join_map [OF extract_distinct] map_of_extract opt_of_def)
  also have "\<dots> \<longleftrightarrow> join_on_var (var_occurrences v body)"
    by (auto simp: join_on_var_def)
  finally show ?thesis by (simp add: join_on_var_occurrences)
qed

lemma comparison_step_record:
  "comparison_step pyfloat m c cm =
     (case comparison_record pyfloat m c of
        Inl e \<Rightarrow> Inl e
      | Inr (p, s) \<Rightarrow>
          Inr (push_entry (atom_index p) (arg_index p) s
                 (ensure_entry (atom_index p) (arg_index p) cm)))"
  by (simp add: comparison_step_def comparison_record_def malformed_def validation_error_def
      Let_def split: sum.splits)

lemma nested_get_push_ensure:
  "nested_get (push_entry k1 k2 x (ensure_entry k1 k2 m)) a b =
     (if a = k1 \<and> b = k2 then nested_get m a b @ [x] else nested_get m a b)"
  by (auto simp: push_ensure_entry nested_get_def Let_def AList.update_conv'
      split: option.splits)

lemma comparison_loop_records:
  assumes "fold_err (comparison_step pyfloat m) cs cm0 = Inr cm"
  shows "(\<forall>c \<in> set cs. \<exists>p s. comparison_record pyfloat m c = Inr (p, s) \<and>
            s \<in> set (nested_get cm (atom_index p) (arg_index p))) \<and>
         (\<forall>a b. set (nested_get cm0 a b) \<subseteq> set (nested_get cm a b))"
  using assms
proof (induction cs arbitrary: cm0)
  case Nil
  then show ?case by simp
next
  case (Cons c cs)
  from Cons.prems obtain p s where rec: "comparison_record pyfloat m c = Inr (p, s)"
    by (auto simp: comparison_step_record split: sum.splits)
  let ?cm1 = "push_entry (atom_index p) (arg_index p) s
                (ensure_entry (atom_index p) (arg_index p) cm0)"
  have step: "comparison_step pyfloat m c cm0 = Inr ?cm1"
    using rec by (simp add: comparison_step_record)
  have rest: "fold_err (comparison_step pyfloat m) cs ?cm1 = Inr cm"
    using Cons.prems by (simp add: step)
  note ih = Cons.IH [OF rest]
  have grow: "set (nested_get cm0 a b) \<subseteq> set (nested_get ?cm1 a b)" for a b
    by (auto simp: nested_get_push_ensure)
  have here: "s \<in> set (nested_get ?cm1 (atom_index p) (arg_index p))"
    by (simp add: nested_get_push_ensure)
  have "s \<in> set (nested_get cm (atom_index p) (arg_index p))"
    using here ih by blast
  moreover have "set (nested_get cm0 a b) \<subseteq> set (nested_get cm a b)" for a b
    using grow [of a b] ih by blast
  ultimately show ?case using rec ih by auto
qed

lemma comparison_loop_result:
  assumes "\<forall>c \<in> set cs. comparison_record pyfloat m c = Inl validation_error \<or>
             (\<exists>r. comparison_record pyfloat m c = Inr r)"
  shows "if (\<exists>c \<in> set cs. comparison_record pyfloat m c = Inl validation_error)
         then fold_err (comparison_step pyfloat m) cs cm0 = Inl validation_error
         else (\<exists>cm. fold_err (comparison_step pyfloat m) cs cm0 = Inr cm)"
  using assms
proof (induction cs arbitrary: cm0)
  case Nil
  then show ?case by simp
next
  case (Cons c cs)
  show ?case
  proof (cases "comparison_record pyfloat m c")
    case (Inl e)
    then have e: "e = validation_error" using Cons.prems by auto
    have "comparison_step pyfloat m c cm0 = Inl validation_error"
      using Inl e by (simp add: comparison_step_record)
    then show ?thesis using Inl e by simp
  next
    case (Inr r)
    obtain p s where r: "r = (p, s)" by (cases r)
    have "\<forall>c \<in> set cs. comparison_record pyfloat m c = Inl validation_error \<or>
             (\<exists>r. comparison_record pyfloat m c = Inr r)"
      using Cons.prems by simp
    note ih = Cons.IH [OF this]
    have step: "comparison_step pyfloat m c cm0 =
            Inr (push_entry (atom_index p) (arg_index p) s
                   (ensure_entry (atom_index p) (arg_index p) cm0))"
      using Inr r by (simp add: comparison_step_record)
    show ?thesis
      using ih [of "push_entry (atom_index p) (arg_index p) s
                   (ensure_entry (atom_index p) (arg_index p) cm0)"] Inr
      by (simp add: step)
  qed
qed

lemma search_and_subscript_extract:
  assumes "v \<in> body_var_names body"
  shows "\<exists>p. search_and_subscript (extract_variable_arg_to_atom_map body) v = Inr p"
  using search_extract_first [OF assms] by (auto simp: search_and_subscript_def)

lemma comparison_record_wf:
  assumes "wf_comparison pyfloat body c"
  shows "if malformed c
         then comparison_record pyfloat (extract_variable_arg_to_atom_map body) c
                = Inl validation_error
         else (\<exists>r. comparison_record pyfloat (extract_variable_arg_to_atom_map body) c = Inr r)"
proof (cases "malformed c")
  case True
  then show ?thesis by (simp add: comparison_record_def)
next
  case False
  let ?m = "extract_variable_arg_to_atom_map body"
  have "base_var c \<in> body_var_names body"
    using False assms
    by (auto simp: malformed_def wf_comparison_def operand_ok_def base_var_def)
  then obtain p where p: "search_and_subscript ?m (base_var c) = Inr p"
    using search_and_subscript_extract by blast
  have other: "(compare_arg_type c = ''var'' \<and> compare_arg c \<in> body_var_names body) \<or>
               (compare_arg_type c = ''num'' \<and> pyfloat (compare_arg c) \<noteq> None)"
    using assms
    by (auto simp: wf_comparison_def operand_ok_def compare_arg_def compare_arg_type_def)
  have "\<exists>s. build_comparison_struct pyfloat ?m (base_side c) (op c)
               (compare_arg c) (compare_arg_type c) = Inr s"
  proof (cases "compare_arg_type c = ''num''")
    case True
    then have "pyfloat (compare_arg c) \<noteq> None" using other by auto
    then show ?thesis using True by (auto simp: build_comparison_struct_def)
  next
    case notnum: False
    then have "compare_arg c \<in> body_var_names body" using other by auto
    then obtain q where "search_and_subscript ?m (compare_arg c) = Inr q"
      using search_and_subscript_extract by blast
    then show ?thesis using notnum by (simp add: build_comparison_struct_def)
  qed
  then show ?thesis using False p by (auto simp: comparison_record_def)
qed

declare remove_all_prev_groups.simps [simp del]

lemma extend_product_single: "extend_product [c] groups = map (\<lambda>g. g @ [c]) groups"
  by (simp add: extend_product_def)

lemma extend_product_nonempty:
  "choices \<noteq> [] \<Longrightarrow> groups \<noteq> [] \<Longrightarrow> extend_product choices groups \<noteq> []"
  by (cases choices) (auto simp: extend_product_def)

lemma extend_product_start: "extend_product choices [[]] = map (\<lambda>c. [c]) choices"
  by (induction choices) (simp_all add: extend_product_def)

lemma map_nth_shift:
  "map (\<lambda>k. F ((c # rest) ! (k + 1))) [0..<length rest] = map F rest"
proof -
  have "map (\<lambda>k. F ((c # rest) ! (k + 1))) [0..<length rest] =
          map F (map (\<lambda>k. rest ! k) [0..<length rest])"
    by (simp add: comp_def)
  then show ?thesis by (simp add: map_nth)
qed

lemma extend_groups_product:
  assumes "atom_eval_names \<noteq> []"
  shows "extend_groups atom_eval_names groups =
           Inr (extend_product atom_eval_names (if groups = [] then [[]] else groups))"
proof (cases "groups = []")
  case True
  then show ?thesis by (simp add: extend_groups_def extend_product_start)
next
  case False
  obtain c rest where names: "atom_eval_names = c # rest"
    using assms by (cases atom_eval_names) auto
  show ?thesis
  proof (cases rest)
    case Nil
    then show ?thesis using False names by (simp add: extend_groups_def extend_product_def)
  next
    case (Cons c' rest')
    have "concat (map (\<lambda>k. map (\<lambda>g. g @ [(c # rest) ! (k + 1)]) groups) [0..<length rest]) =
            concat (map (\<lambda>x. map (\<lambda>g. g @ [x]) groups) rest)"
      using map_nth_shift [of "\<lambda>x. map (\<lambda>g. g @ [x]) groups" c rest] by simp
    then show ?thesis
      using False names Cons by (simp add: extend_groups_def extend_product_def)
  qed
qed

lemma fold_err_append:
  "fold_err f (xs @ ys) s =
     (case fold_err f xs s of Inl e \<Rightarrow> Inl e | Inr s' \<Rightarrow> fold_err f ys s')"
  by (induction xs arbitrary: s) (auto split: sum.splits)

lemma fold_err_nth_take:
  "n \<le> length xs \<Longrightarrow>
   fold_err (\<lambda>i s. if i < length xs then f (xs ! i) s else Inl e) [0..<n] s =
     fold_err f (take n xs) s"
proof (induction n)
  case 0
  then show ?case by simp
next
  case (Suc n)
  then have n: "n < length xs" by simp
  have "take (Suc n) xs = take n xs @ [xs ! n]"
    by (rule take_Suc_conv_app_nth [OF n])
  then show ?case
    using Suc.IH n by (simp add: fold_err_append split: sum.splits)
qed

lemma fold_err_nth:
  "fold_err (\<lambda>i s. if i < length xs then f (xs ! i) s else Inl e) [0..<length xs] s =
     fold_err f xs s"
  using fold_err_nth_take [of "length xs" xs f e s] by simp

lemma fold_err_extend_groups:
  assumes "\<forall>ns \<in> set nss. ns \<noteq> []"
  shows "fold_err extend_groups nss groups =
           Inr (if nss = [] then groups
                else foldl (\<lambda>gs ns. extend_product ns gs) (if groups = [] then [[]] else groups) nss)"
  using assms
proof (induction nss arbitrary: groups)
  case Nil
  then show ?case by simp
next
  case (Cons ns nss)
  let ?g1 = "extend_product ns (if groups = [] then [[]] else groups)"
  have ns: "ns \<noteq> []" using Cons.prems by simp
  have step: "extend_groups ns groups = Inr ?g1"
    by (rule extend_groups_product [OF ns])
  have ne: "?g1 \<noteq> []"
    by (rule extend_product_nonempty [OF ns]) simp
  have "fold_err extend_groups nss ?g1 =
          Inr (if nss = [] then ?g1 else foldl (\<lambda>gs ns. extend_product ns gs) ?g1 nss)"
    using Cons.IH [of ?g1] Cons.prems ne by simp
  then show ?case using step by simp
qed

lemma aliases_names:
  "body_atom_eval_names (build_recursive_atom_aliases body ev iter_num) =
     map (atom_alias_choices ev iter_num) body"
  by (simp add: build_recursive_atom_aliases_def atom_alias_choices_def)

lemma idb_fold_count:
  "fold (\<lambda>a n. if ev (name a) \<noteq> None then n + 1 else n) body (k::int) =
     k + int (idb_count ev body)"
  by (induction body arbitrary: k) (simp_all add: idb_count_def)

lemma aliases_idb_num:
  "idb_num (build_recursive_atom_aliases body ev iter_num) = int (idb_count ev body)"
  using idb_fold_count [of ev body 0] by (simp add: build_recursive_atom_aliases_def)

lemma prev_count_fold:
  "fold (\<lambda>a n. if alias_type a = ''prev'' then n + 1 else n) g (k::int) =
     k + int (length (filter (\<lambda>a. alias_type a = ''prev'') g))"
  by (induction g arbitrary: k) simp_all

lemma prev_count_length:
  "prev_count g = int (length (filter (\<lambda>a. alias_type a = ''prev'') g))"
  by (simp add: prev_count_def prev_count_fold)

lemma prev_count_snoc:
  "prev_count (g @ [a]) = prev_count g + (if alias_type a = ''prev'' then 1 else 0)"
  by (simp add: prev_count_length)

lemma choice_product_snoc:
  "choice_product (nss @ [ns]) = extend_product ns (choice_product nss)"
  by (simp add: choice_product_def)

lemma choice_product_inv:
  "choice_product (map (atom_alias_choices ev iter_num) body) \<noteq> [] \<and>
   hd (choice_product (map (atom_alias_choices ev iter_num) body)) =
     map (\<lambda>a. hd (atom_alias_choices ev iter_num a)) body \<and>
   prev_count (hd (choice_product (map (atom_alias_choices ev iter_num) body))) =
     int (idb_count ev body) \<and>
   (\<forall>g \<in> set (tl (choice_product (map (atom_alias_choices ev iter_num) body))).
      prev_count g < int (idb_count ev body)) \<and>
   length (choice_product (map (atom_alias_choices ev iter_num) body)) = 2 ^ idb_count ev body"
proof (induction body rule: rev_induct)
  case Nil
  then show ?case by (simp add: choice_product_def idb_count_def prev_count_def)
next
  case (snoc a body)
  let ?P = "choice_product (map (atom_alias_choices ev iter_num) body)"
  let ?k = "idb_count ev body"
  from snoc have ne: "?P \<noteq> []"
    and hdP: "hd ?P = map (\<lambda>a. hd (atom_alias_choices ev iter_num a)) body"
    and cnt: "prev_count (hd ?P) = int ?k"
    and tlP: "\<forall>g \<in> set (tl ?P). prev_count g < int ?k"
    and len: "length ?P = 2 ^ ?k"
    by blast+
  have all_le: "prev_count g \<le> int ?k" if "g \<in> set ?P" for g
  proof -
    from ne that have "g = hd ?P \<or> g \<in> set (tl ?P)"
      by (cases ?P) auto
    then show ?thesis using cnt tlP by auto
  qed
  have P': "choice_product (map (atom_alias_choices ev iter_num) (body @ [a])) =
              extend_product (atom_alias_choices ev iter_num a) ?P"
    by (simp add: choice_product_snoc)
  show ?case
  proof (cases "ev (name a) = None")
    case True
    let ?d = "\<lparr>alias_name = name a, alias_type = ''default''\<rparr>"
    have ch: "atom_alias_choices ev iter_num a = [?d]"
      using True by (simp add: atom_alias_choices_def)
    have P'': "choice_product (map (atom_alias_choices ev iter_num) (body @ [a])) =
                 map (\<lambda>g. g @ [?d]) ?P"
      unfolding P' ch by (rule extend_product_single)
    have k': "idb_count ev (body @ [a]) = ?k"
      using True by (simp add: idb_count_def)
    have "hd (map (\<lambda>g. g @ [?d]) ?P) = hd ?P @ [?d]"
      using ne by (simp add: hd_map)
    moreover have "tl (map (\<lambda>g. g @ [?d]) ?P) = map (\<lambda>g. g @ [?d]) (tl ?P)"
      by (simp add: map_tl)
    ultimately show ?thesis
      unfolding P'' k' using ne hdP cnt tlP len ch
      by (auto simp: prev_count_snoc)
  next
    case False
    let ?p = "\<lparr>alias_name = name a @ ''_prev'', alias_type = ''prev''\<rparr>"
    let ?q = "\<lparr>alias_name = name a @ ''_delta_'' @ str_int (iter_num - 1),
               alias_type = ''delta''\<rparr>"
    have ch: "atom_alias_choices ev iter_num a = [?p, ?q]"
      using False by (simp add: atom_alias_choices_def)
    have P'': "choice_product (map (atom_alias_choices ev iter_num) (body @ [a])) =
                 map (\<lambda>g. g @ [?p]) ?P @ map (\<lambda>g. g @ [?q]) ?P"
      unfolding P' ch by (simp add: extend_product_def)
    have k': "idb_count ev (body @ [a]) = Suc ?k"
      using False by (simp add: idb_count_def)
    have h: "hd (map (\<lambda>g. g @ [?p]) ?P @ map (\<lambda>g. g @ [?q]) ?P) = hd ?P @ [?p]"
      using ne by (simp add: hd_map)
    have t: "tl (map (\<lambda>g. g @ [?p]) ?P @ map (\<lambda>g. g @ [?q]) ?P) =
               map (\<lambda>g. g @ [?p]) (tl ?P) @ map (\<lambda>g. g @ [?q]) ?P"
      using ne by (simp add: map_tl)
    have c1: "prev_count (hd ?P @ [?p]) = int (Suc ?k)"
      using cnt by (simp add: prev_count_snoc)
    have c2: "\<forall>g \<in> set (map (\<lambda>g. g @ [?p]) (tl ?P) @ map (\<lambda>g. g @ [?q]) ?P).
                prev_count g < int (Suc ?k)"
    proof
      fix g
      assume "g \<in> set (map (\<lambda>g. g @ [?p]) (tl ?P) @ map (\<lambda>g. g @ [?q]) ?P)"
      then consider g0 where "g0 \<in> set (tl ?P)" "g = g0 @ [?p]"
        | g0 where "g0 \<in> set ?P" "g = g0 @ [?q]"
        by auto
      then show "prev_count g < int (Suc ?k)"
      proof cases
        case 1
        then show ?thesis using tlP by (auto simp: prev_count_snoc)
      next
        case 2
        then show ?thesis using all_le [of g0] by (simp add: prev_count_snoc)
      qed
    qed
    have l: "length (map (\<lambda>g. g @ [?p]) ?P @ map (\<lambda>g. g @ [?q]) ?P) = 2 ^ Suc ?k"
      using len by simp
    have hd': "hd ?P @ [?p] = map (\<lambda>a. hd (atom_alias_choices ev iter_num a)) (body @ [a])"
      using hdP ch by simp
    show ?thesis
      unfolding P'' k' h t using ne c1 c2 l hd' by simp
  qed
qed

lemma remove_all_prev_groups_none:
  assumes "\<forall>j. i \<le> j \<and> j < length gs \<longrightarrow> prev_count (gs ! j) \<noteq> k"
  shows "remove_all_prev_groups k i gs = gs"
  using assms
proof (induction "length gs - i" arbitrary: i)
  case 0
  then show ?case by (simp add: remove_all_prev_groups.simps)
next
  case (Suc n)
  then have i: "i < length gs" by simp
  have "prev_count (gs ! i) \<noteq> k" using Suc.prems i by simp
  moreover have "remove_all_prev_groups k (i + 1) gs = gs"
    using Suc.hyps Suc.prems by (intro Suc.hyps(1)) auto
  ultimately show ?case
    using i by (subst remove_all_prev_groups.simps) simp
qed

lemma remove_all_prev_groups_first:
  assumes "gs \<noteq> []" "prev_count (hd gs) = k" "\<forall>g \<in> set (tl gs). prev_count g \<noteq> k"
  shows "remove_all_prev_groups k 0 gs = tl gs"
proof -
  obtain g rest where gs: "gs = g # rest" using assms(1) by (cases gs) auto
  have "remove_all_prev_groups k (0 + 1) rest = rest"
    using assms(3) gs by (intro remove_all_prev_groups_none) auto
  then show ?thesis
    using assms(2) gs by (subst remove_all_prev_groups.simps) simp
qed

lemma alias_choices_nonempty: "atom_alias_choices ev iter_num a \<noteq> []"
  by (simp add: atom_alias_choices_def)

lemma groups_loop:
  "fold_err (\<lambda>atom_idx groups.
               if atom_idx < length (map (atom_alias_choices ev iter_num) body)
               then extend_groups (map (atom_alias_choices ev iter_num) body ! atom_idx) groups
               else Inl IndexError)
     [0..<length body] [] =
   Inr (if body = [] then [] else choice_product (map (atom_alias_choices ev iter_num) body))"
proof -
  let ?nss = "map (atom_alias_choices ev iter_num) body"
  have "fold_err (\<lambda>atom_idx groups.
               if atom_idx < length ?nss then extend_groups (?nss ! atom_idx) groups
               else Inl IndexError) [0..<length ?nss] [] = fold_err extend_groups ?nss []"
    by (rule fold_err_nth)
  moreover have ne: "\<forall>ns \<in> set ?nss. ns \<noteq> []"
    by (simp add: alias_choices_nonempty)
  have "fold_err extend_groups ?nss [] =
      Inr (if body = [] then [] else choice_product ?nss)"
    using fold_err_extend_groups [OF ne, of "[]"] by (simp add: choice_product_def)
  ultimately show ?thesis by simp
qed

lemma build_groups_result:
  "build_recursive_atom_alias_groups body (build_recursive_atom_aliases body ev iter_num) =
     Inr (tl (choice_product (map (atom_alias_choices ev iter_num) body)))"
proof (cases "body = []")
  case True
  then show ?thesis
    by (simp add: build_recursive_atom_alias_groups_def choice_product_def
        remove_all_prev_groups.simps)
next
  case False
  let ?P = "choice_product (map (atom_alias_choices ev iter_num) body)"
  note inv = choice_product_inv [of ev iter_num body]
  have "remove_all_prev_groups (int (idb_count ev body)) 0 ?P = tl ?P"
    using inv by (intro remove_all_prev_groups_first) auto
  then show ?thesis
    unfolding build_recursive_atom_alias_groups_def aliases_names aliases_idb_num
      groups_loop [of ev iter_num body]
    using False by simp
qed

lemmas eval_defs =
  extract_variable_arg_to_atom_map_def scan_atom_args_def record_occurrence_def
  ensure_entry_def push_entry_def mk_atom_def var_def const_def upt_rec

lemma extract_edge_path:
  "extract_variable_arg_to_atom_map edge_path =
     [(''x'', [(0, [0])]), (''y'', [(0, [1]), (1, [0])]), (''z'', [(1, [1])])]"
  by (simp add: edge_path_def eval_defs)

lemma body_var_names_edge_path: "body_var_names edge_path = {''x'', ''y'', ''z''}"
  by (auto simp add: edge_path_def body_var_names_def mk_atom_def var_def)

lemma extract_edge_xy':
  "extract_variable_arg_to_atom_map edge_xy = [(''x'', [(0, [0])]), (''y'', [(0, [1])])]"
  by (simp add: edge_xy_def eval_defs)

lemma body_var_names_edge_xy: "body_var_names edge_xy = {''x'', ''y''}"
  by (auto simp add: edge_xy_def body_var_names_def mk_atom_def var_def)

lemma comparison_x_lt_y:
  "extract_comparison_map digit_float [x_lt_y] (extract_variable_arg_to_atom_map edge_xy) =
     Inr [(0, [(0, [\<lparr>base_variable_side = ''l'', compare_op = ''<'', other_side_type = ''var'',
                      numerical_value = None, other_side_atom_index = Some 0,
                      other_side_arg_index = Some 1\<rparr>])])]"
  by (simp add: extract_comparison_map_def comparison_step_def x_lt_y_def extract_edge_xy'
      search_and_subscript_def search_argument_mapping_in_body_atoms_def base_var_def
      base_side_def compare_arg_def compare_arg_type_def build_comparison_struct_def
      ensure_entry_def push_entry_def)

section \<open>Lemmas about the store\<close>

lemma keeps_refl: "keeps n h h"
  by (simp add: keeps_def)

lemma keeps_trans: "keeps n h h' \<Longrightarrow> keeps n h' h'' \<Longrightarrow> keeps n h h''"
  by (auto simp: keeps_def)

lemma tripleI:
  assumes "\<And>h r h'. P h \<Longrightarrow> n \<le> length h \<Longrightarrow> m h = Some (r, h') \<Longrightarrow>
             keeps n h h' \<and> (\<forall>x. r = Inr x \<longrightarrow> Q x h')"
  shows "triple n P m Q"
  using assms unfolding triple_def by blast

lemma tripleD:
  assumes "triple n P m Q" "P h" "n \<le> length h" "m h = Some (r, h')"
  shows "keeps n h h'" and "r = Inr x \<Longrightarrow> Q x h'"
  using assms unfolding triple_def by blast+

lemma triple_ret: "(\<And>h. P h \<Longrightarrow> Q x h) \<Longrightarrow> triple n P (ret x) Q"
  by (auto simp: triple_def ret_def keeps_refl)

lemma triple_throw: "triple n P (throw e) Q"
  by (auto simp: triple_def throw_def keeps_refl)

lemma triple_seq:
  assumes "triple n P m R" and "\<And>x. triple n (R x) (f x) Q"
  shows "triple n P (seq m f) Q"
proof (rule tripleI)
  fix h r h''
  assume P: "P h" and n: "n \<le> length h" and run: "seq m f h = Some (r, h'')"
  from run obtain r1 h1 where m: "m h = Some (r1, h1)"
    by (auto simp: seq_def split: option.splits)
  note k1 = tripleD(1) [OF assms(1) P n m]
  show "keeps n h h'' \<and> (\<forall>x. r = Inr x \<longrightarrow> Q x h'')"
  proof (cases r1)
    case (Inl e)
    then show ?thesis using run m k1 by (auto simp: seq_def)
  next
    case (Inr y)
    then have f: "f y h1 = Some (r, h'')" using run m by (simp add: seq_def)
    have R: "R y h1" using tripleD(2) [OF assms(1) P n m] Inr by simp
    have n1: "n \<le> length h1" using k1 n by (simp add: keeps_def)
    from tripleD [OF assms(2) R n1 f] k1 show ?thesis
      by (auto intro: keeps_trans)
  qed
qed

lemma pure_ret: "pure_op (ret x)" by (simp add: pure_op_def ret_def)

lemma pure_throw: "pure_op (throw e)" by (simp add: pure_op_def throw_def)

lemma pure_deref: "pure_op (deref v)"
  by (auto simp: pure_op_def deref_def split: val.splits if_splits)

lemma pure_seq: "pure_op m \<Longrightarrow> (\<And>x. pure_op (f x)) \<Longrightarrow> pure_op (seq m f)"
  unfolding pure_op_def seq_def
  by (auto split: option.splits sum.splits prod.splits) blast+

lemma pure_py_len: "pure_op (py_len v)"
  unfolding py_len_def
  by (auto intro!: pure_seq pure_ret pure_throw pure_deref split: val.splits obj.splits)

lemma pure_getitem: "pure_op (getitem v k)"
  unfolding getitem_def
  by (auto intro!: pure_seq pure_ret pure_throw pure_deref split: val.splits obj.splits option.splits)
     (auto simp: pure_op_def ret_def throw_def split: option.splits)

lemma pure_arg_type_of: "pure_op (arg_type_of v)"
  unfolding arg_type_of_def
  by (auto intro!: pure_seq pure_ret pure_throw pure_deref split: val.splits obj.splits)

lemma pure_arg_name_of: "pure_op (arg_name_of v)"
  unfolding arg_name_of_def
  by (auto intro!: pure_seq pure_ret pure_throw pure_deref split: val.splits obj.splits)

lemma deref_Some:
  "deref v h = Some (Inr ob, h') \<Longrightarrow> h' = h \<and> (\<exists>a. v = VRef a \<and> a < length h \<and> ob = h ! a)"
  by (auto simp: deref_def split: val.splits if_splits)

lemma seq_Inr:
  "seq m f h = Some (Inr y, h'') \<Longrightarrow> \<exists>x h'. m h = Some (Inr x, h') \<and> f x h' = Some (Inr y, h'')"
  by (auto simp: seq_def split: option.splits sum.splits)

lemma py_index_less: "py_index i n = Some j \<Longrightarrow> j < n"
  by (auto simp: py_index_def split: if_splits)

lemma getitem_from:
  assumes "getitem v k h = Some (Inr x, h')"
  shows "from_obj h v x"
proof (cases v)
  case (VRef a)
  from assms VRef obtain ob h1 where d: "deref v h = Some (Inr ob, h1)"
    by (auto simp: getitem_def dest!: seq_Inr)
  then have h1: "h1 = h" and a: "a < length h" and ob: "ob = h ! a"
    using VRef by (auto dest: deref_Some)
  have "x \<in> set (vals ob)"
    using assms VRef d h1
    by (auto simp: getitem_def seq_def ret_def throw_def py_index_less
        split: obj.splits val.splits option.splits if_splits dest: map_of_SomeD)
       (metis map_of_SomeD snd_conv image_eqI)
  then show ?thesis using VRef a ob by (simp add: from_obj_def)
qed (use assms in \<open>auto simp: getitem_def from_obj_def ret_def throw_def
      split: val.splits option.splits\<close>)

subsection \<open>Rules\<close>

lemma wp_ret: "triple n (Q x) (ret x) Q"
  by (rule triple_ret)

lemma wp_skip: "triple n (Q ()) skip Q"
  unfolding skip_def by (rule triple_ret)

lemma wp_throw: "triple n (\<lambda>h. True) (throw e) Q"
  by (rule triple_throw)

lemma wp_seq:
  assumes "\<And>x. triple n (R x) (f x) Q" and "triple n P m R"
  shows "triple n P (seq m f) Q"
  using assms(2,1) by (rule triple_seq)

lemma wp_if:
  assumes "c \<Longrightarrow> triple n P1 m1 Q" and "\<not> c \<Longrightarrow> triple n P2 m2 Q"
  shows "triple n (\<lambda>h. (c \<longrightarrow> P1 h) \<and> (\<not> c \<longrightarrow> P2 h)) (if c then m1 else m2) Q"
  using assms by (cases c) (auto simp: triple_def)

lemma wp_pure:
  assumes "pure_op m"
  shows "triple n (\<lambda>h. \<forall>x. m h = Some (Inr x, h) \<longrightarrow> Q x h) m Q"
proof (rule tripleI)
  fix h r h'
  assume P: "\<forall>x. m h = Some (Inr x, h) \<longrightarrow> Q x h" and run: "m h = Some (r, h')"
  from assms run have "h' = h" by (auto simp: pure_op_def)
  then show "keeps n h h' \<and> (\<forall>x. r = Inr x \<longrightarrow> Q x h')"
    using P run by (auto simp: keeps_refl)
qed

lemma pure_call: "pure_op (call f)"
  by (simp add: pure_op_def call_def)

lemma pure_eq_str: "pure_op (eq_str b v s)"
  by (simp add: eq_str_def pure_call)

lemma pure_int_of: "pure_op (int_of v)"
  by (auto simp: int_of_def pure_ret pure_throw split: val.splits)

lemmas pure_rules = pure_ret pure_throw pure_deref pure_py_len pure_getitem pure_arg_type_of
  pure_arg_name_of pure_call pure_eq_str pure_int_of

lemma wp_new: "triple n (\<lambda>h. Q (VRef (length h)) (h @ [ob])) (new_obj ob) Q"
  by (auto simp: triple_def new_obj_def keeps_def nth_append)

lemma set_update_subset: "set (l[j := x]) \<subseteq> insert x (set l)"
  by (rule set_update_subset_insert)

lemma setitem_cases:
  assumes "setitem v k x h = Some (r, h')"
  shows "h' = h \<or>
         (\<exists>a ob. v = VRef a \<and> a < length h \<and> h' = h[a := ob] \<and>
                  set (vals ob) \<subseteq> insert x (set (vals (h ! a))))"
proof (cases v)
  case (VRef a)
  show ?thesis
  proof (cases "a < length h")
    case True
    then have d: "deref v h = Some (Inr (h ! a), h)" using VRef by (simp add: deref_def)
    show ?thesis
    proof (cases "h ! a")
      case (OList l)
      have "h' = h \<or> (\<exists>j. h' = h[a := OList (l[j := x])])"
        using assms VRef d OList
        by (auto simp: setitem_def seq_def throw_def put_obj_def
            split: val.splits option.splits)
      then show ?thesis
      proof
        assume "h' = h" then show ?thesis by simp
      next
        assume "\<exists>j. h' = h[a := OList (l[j := x])]"
        then obtain j where "h' = h[a := OList (l[j := x])]" ..
        moreover have "set (vals (OList (l[j := x]))) \<subseteq> insert x (set (vals (h ! a)))"
          using OList set_update_subset [of l j x] by simp
        ultimately show ?thesis using VRef True by blast
      qed
    next
      case (ODict dd)
      have sub: "set (map snd (AList.update k x dd)) \<subseteq> insert x (set (map snd dd))"
        by (induction dd) auto
      have "h' = h \<or> h' = h[a := ODict (AList.update k x dd)]"
        using assms VRef d ODict
        by (auto simp: setitem_def seq_def throw_def put_obj_def split: if_splits)
      then show ?thesis
      proof
        assume "h' = h" then show ?thesis by simp
      next
        assume "h' = h[a := ODict (AList.update k x dd)]"
        moreover have "set (vals (ODict (AList.update k x dd))) \<subseteq> insert x (set (vals (h ! a)))"
          using ODict sub by simp
        ultimately show ?thesis using VRef True by blast
      qed
    next
      case (OInst t nn)
      then show ?thesis
        using assms VRef d by (auto simp: setitem_def seq_def throw_def)
    qed
  next
    case False
    then show ?thesis using assms VRef by (auto simp: setitem_def seq_def deref_def)
  qed
qed (use assms in \<open>auto simp: setitem_def throw_def\<close>)

lemma list_append_cases:
  assumes "list_append v x h = Some (r, h')"
  shows "h' = h \<or>
         (\<exists>a ob. v = VRef a \<and> a < length h \<and> h' = h[a := ob] \<and>
                  set (vals ob) \<subseteq> insert x (set (vals (h ! a))))"
proof (cases v)
  case (VRef a)
  show ?thesis
  proof (cases "a < length h")
    case True
    then have d: "deref v h = Some (Inr (h ! a), h)" using VRef by (simp add: deref_def)
    have "h' = h \<or> (\<exists>l. h ! a = OList l \<and> h' = h[a := OList (l @ [x])])"
      using assms VRef d
      by (cases "h ! a") (auto simp: list_append_def seq_def throw_def put_obj_def)
    then show ?thesis
    proof
      assume "h' = h" then show ?thesis by simp
    next
      assume "\<exists>l. h ! a = OList l \<and> h' = h[a := OList (l @ [x])]"
      then obtain l where l: "h ! a = OList l" "h' = h[a := OList (l @ [x])]" by blast
      have "set (vals (OList (l @ [x]))) \<subseteq> insert x (set (vals (h ! a)))"
        using l(1) by auto
      then show ?thesis using l(2) VRef True by blast
    qed
  next
    case False
    then show ?thesis using assms VRef by (auto simp: list_append_def seq_def deref_def)
  qed
qed (use assms in \<open>auto simp: list_append_def throw_def\<close>)

text \<open>A write into an object at or above \<open>n\<close>.\<close>

lemma keeps_update: "n \<le> a \<Longrightarrow> keeps n h (h[a := ob])"
  by (simp add: keeps_def)

lemma wp_write:
  assumes "\<And>h r h'. m h = Some (r, h') \<Longrightarrow>
             h' = h \<or> (\<exists>a ob. v = VRef a \<and> a < length h \<and> h' = h[a := ob] \<and>
                          set (vals ob) \<subseteq> insert x (set (vals (h ! a))))"
  shows "triple n
           (\<lambda>h. Q () h \<and>
                 (\<forall>a. v = VRef a \<longrightarrow> a < length h \<longrightarrow>
                    n \<le> a \<and> (\<forall>ob. set (vals ob) \<subseteq> insert x (set (vals (h ! a))) \<longrightarrow>
                               Q () (h[a := ob]))))
           m Q"
proof (rule tripleI)
  fix h r h'
  assume P: "Q () h \<and> (\<forall>a. v = VRef a \<longrightarrow> a < length h \<longrightarrow>
                    n \<le> a \<and> (\<forall>ob. set (vals ob) \<subseteq> insert x (set (vals (h ! a))) \<longrightarrow>
                               Q () (h[a := ob])))"
    and run: "m h = Some (r, h')"
  from assms [OF run] show "keeps n h h' \<and> (\<forall>y. r = Inr y \<longrightarrow> Q y h')"
  proof
    assume "h' = h"
    then show ?thesis using P by (simp add: keeps_refl)
  next
    assume "\<exists>a ob. v = VRef a \<and> a < length h \<and> h' = h[a := ob] \<and>
                          set (vals ob) \<subseteq> insert x (set (vals (h ! a)))"
    then obtain a ob where w: "v = VRef a" "a < length h" "h' = h[a := ob]"
      "set (vals ob) \<subseteq> insert x (set (vals (h ! a)))" by blast
    with P have "n \<le> a" and "Q () (h[a := ob])" by blast+
    then show ?thesis using w by (simp add: keeps_update)
  qed
qed

lemma wp_setitem:
  "triple n
     (\<lambda>h. Q () h \<and>
           (\<forall>a. v = VRef a \<longrightarrow> a < length h \<longrightarrow>
              n \<le> a \<and> (\<forall>ob. set (vals ob) \<subseteq> insert x (set (vals (h ! a))) \<longrightarrow>
                         Q () (h[a := ob]))))
     (setitem v k x) Q"
  by (rule wp_write) (rule setitem_cases)

lemma wp_append:
  "triple n
     (\<lambda>h. Q () h \<and>
           (\<forall>a. v = VRef a \<longrightarrow> a < length h \<longrightarrow>
              n \<le> a \<and> (\<forall>ob. set (vals ob) \<subseteq> insert x (set (vals (h ! a))) \<longrightarrow>
                         Q () (h[a := ob]))))
     (list_append v x) Q"
  by (rule wp_write) (rule list_append_cases)

lemma for_range_inv:
  assumes "\<And>s i. triple n I (body s i) (\<lambda>_. I)"
  shows "triple n I (for_range is body s) (\<lambda>_. I)"
proof (induction "is" arbitrary: s)
  case Nil
  show ?case by (simp add: triple_ret)
next
  case (Cons i "is")
  show ?case
    by (simp, rule triple_seq [OF assms]) (rule Cons.IH)
qed

lemma triple_pre:
  assumes "triple n P' m Q" "\<And>h. P h \<Longrightarrow> P' h"
  shows "triple n P m Q"
  using assms unfolding triple_def by blast

lemma triple_post:
  assumes "triple n P m Q'" "\<And>x h. Q' x h \<Longrightarrow> Q x h"
  shows "triple n P m Q"
  using assms unfolding triple_def by blast

lemma read_keep:
  assumes "pure_op m" and "\<And>x. triple n (\<lambda>h. P h \<and> m h = Some (Inr x, h)) (f x) Q"
  shows "triple n P (seq m f) Q"
proof (rule triple_seq [where R = "\<lambda>x h. P h \<and> m h = Some (Inr x, h)"])
  show "triple n P m (\<lambda>x h. P h \<and> m h = Some (Inr x, h))"
    by (rule triple_pre [OF wp_pure [OF assms(1)]]) simp
qed (rule assms(2))

lemma then_inv:
  assumes "triple n P m (\<lambda>_. I)" and "\<And>x. triple n I (f x) Q"
  shows "triple n P (seq m f) Q"
  using assms by (rule triple_seq)

lemma triple_if:
  assumes "c \<Longrightarrow> triple n P m1 Q" and "\<not> c \<Longrightarrow> triple n P m2 Q"
  shows "triple n P (if c then m1 else m2) Q"
  using assms by (cases c) auto

text \<open>An allocation followed by the rest of the function, which gets the new address.\<close>

lemma new_then:
  assumes "\<And>g. n \<le> g \<Longrightarrow>
             triple n (\<lambda>h'. \<exists>h. P h \<and> h' = h @ [ob] \<and> g = length h) (f (VRef g)) Q"
  shows "triple n P (seq (new_obj ob) f) Q"
proof (rule tripleI)
  fix h r h'
  assume P: "P h" and n: "n \<le> length h" and run: "seq (new_obj ob) f h = Some (r, h')"
  then have f: "f (VRef (length h)) (h @ [ob]) = Some (r, h')"
    by (simp add: seq_def new_obj_def)
  have pre: "\<exists>h0. P h0 \<and> h @ [ob] = h0 @ [ob] \<and> length h = length h0"
    using P by blast
  have "n \<le> length (h @ [ob])" using n by simp
  from tripleD [OF assms [OF n] pre this f]
  have "keeps n (h @ [ob]) h'" and "\<And>x. r = Inr x \<Longrightarrow> Q x h'" by blast+
  moreover have "keeps n h (h @ [ob])" using n by (auto simp: keeps_def nth_append)
  ultimately show "keeps n h h' \<and> (\<forall>x. r = Inr x \<longrightarrow> Q x h')"
    by (blast intro: keeps_trans)
qed

subsection \<open>Programs that only create objects\<close>

lemma grow_pure: "pure_op m \<Longrightarrow> grow_only m"
  unfolding grow_only_def pure_op_def
proof (intro allI impI)
  fix h r h'
  assume p: "\<forall>h r h'. m h = Some (r, h') \<longrightarrow> h' = h" and run: "m h = Some (r, h')"
  then have "h' = h" by blast
  then show "keeps (length h) h h'" by (simp add: keeps_refl)
qed

lemma grow_new: "grow_only (new_obj ob)"
  by (auto simp: grow_only_def new_obj_def keeps_def nth_append)

lemma keeps_grow_trans:
  "keeps (length h) h h1 \<Longrightarrow> keeps (length h1) h1 h2 \<Longrightarrow> keeps (length h) h h2"
  by (auto simp: keeps_def)

lemma grow_seq:
  assumes "grow_only m" "\<And>x. grow_only (f x)"
  shows "grow_only (seq m f)"
  unfolding grow_only_def
proof (intro allI impI)
  fix h r h'
  assume run: "seq m f h = Some (r, h')"
  then obtain r1 h1 where m: "m h = Some (r1, h1)"
    by (auto simp: seq_def split: option.splits)
  then have k1: "keeps (length h) h h1" using assms(1) by (simp add: grow_only_def)
  show "keeps (length h) h h'"
  proof (cases r1)
    case (Inl e)
    then show ?thesis using run m k1 by (simp add: seq_def)
  next
    case (Inr x)
    then have "f x h1 = Some (r, h')" using run m by (simp add: seq_def)
    then have "keeps (length h1) h1 h'" using assms(2) by (simp add: grow_only_def)
    with k1 show ?thesis by (rule keeps_grow_trans)
  qed
qed

lemma triple_grow:
  assumes "grow_only m" and "\<And>h h'. I h \<Longrightarrow> keeps (length h) h h' \<Longrightarrow> I h'"
  shows "triple n I m (\<lambda>_. I)"
proof (rule tripleI)
  fix h r h'
  assume I: "I h" and n: "n \<le> length h" and run: "m h = Some (r, h')"
  from assms(1) run have k: "keeps (length h) h h'" by (simp add: grow_only_def)
  then have "keeps n h h'" using n by (auto simp: keeps_def)
  moreover have "I h'" using assms(2) [OF I k] .
  ultimately show "keeps n h h' \<and> (\<forall>x. r = Inr x \<longrightarrow> I h')" by simp
qed

subsection \<open>Loops over containers\<close>

lemma for_items_inv:
  assumes "\<And>s x. triple n I (body s x) (\<lambda>_. I)"
  shows "triple n I (for_items xs body s) (\<lambda>_. I)"
proof (induction xs arbitrary: s)
  case Nil
  show ?case by (simp add: triple_ret)
next
  case (Cons x xs)
  show ?case by (simp, rule triple_seq [OF assms]) (rule Cons.IH)
qed

lemma for_in_inv:
  assumes "\<And>s x. triple n (\<lambda>h. I h \<and> elem_of h v x) (body s x) (\<lambda>_. I)"
  shows "triple n I (for_in fuel size0 i v body s) (\<lambda>_. I)"
proof (induction fuel arbitrary: size0 i s)
  case 0
  show ?case by (simp add: triple_def)
next
  case (Suc fuel)
  show ?case
  proof (subst for_in.simps(2), rule read_keep [OF pure_deref])
    fix ob
    show "triple n (\<lambda>h. I h \<and> deref v h = Some (Inr ob, h))
            (case ob of
               OList l \<Rightarrow>
                 if i < length l then seq (body s (l ! i)) (for_in fuel size0 (i + 1) v body)
                 else ret s
             | ODict d \<Rightarrow>
                 if size0 \<noteq> None \<and> size0 \<noteq> Some (length d) then throw RuntimeErr
                 else if i < length d
                      then seq (body s (fst (d ! i)))
                             (for_in fuel (Some (length d)) (i + 1) v body)
                      else ret s
             | OInst t n \<Rightarrow> throw TypeErr)
            (\<lambda>_. I)"
    proof (cases ob)
      case (OList l)
      show ?thesis
      proof (cases "i < length l")
        case True
        have "triple n (\<lambda>h. I h \<and> deref v h = Some (Inr ob, h))
                (seq (body s (l ! i)) (for_in fuel size0 (i + 1) v body)) (\<lambda>_. I)"
        proof (rule then_inv [where I = I])
          show "triple n (\<lambda>h. I h \<and> deref v h = Some (Inr ob, h)) (body s (l ! i)) (\<lambda>_. I)"
            by (rule triple_pre [OF assms])
              (use OList True in \<open>auto simp: elem_of_def dest!: deref_Some\<close>)
          show "\<And>x. triple n I (for_in fuel size0 (i + 1) v body x) (\<lambda>_. I)"
            by (rule Suc.IH)
        qed
        then show ?thesis using OList True by simp
      next
        case False
        then show ?thesis using OList by (auto intro!: triple_ret)
      qed
    next
      case (ODict d)
      have step: "triple n (\<lambda>h. I h \<and> deref v h = Some (Inr ob, h))
                (seq (body s (fst (d ! i))) (for_in fuel (Some (length d)) (i + 1) v body))
                (\<lambda>_. I)"
      proof (rule then_inv [where I = I])
        show "triple n (\<lambda>h. I h \<and> deref v h = Some (Inr ob, h)) (body s (fst (d ! i)))
                (\<lambda>_. I)"
          by (rule triple_pre [OF assms])
            (use ODict in \<open>auto simp: elem_of_def dest!: deref_Some\<close>)
        show "\<And>x. triple n I (for_in fuel (Some (length d)) (i + 1) v body x) (\<lambda>_. I)"
          by (rule Suc.IH)
      qed
      show ?thesis
        using ODict step by (auto intro!: triple_ret triple_throw)
    next
      case (OInst t nn)
      then show ?thesis by (auto intro!: triple_throw)
    qed
  qed
qed

lemma for_each_inv:
  assumes "\<And>s x. triple n (\<lambda>h. I h \<and> elem_of h v x) (body s x) (\<lambda>_. I)"
  shows "triple n I (for_each fuel v body s) (\<lambda>_. I)"
proof (cases v)
  case (VStr cs)
  have "\<And>s x. triple n I (body s x) (\<lambda>_. I)"
    by (rule triple_pre [OF assms]) (simp add: elem_of_def VStr)
  then have "triple n I (for_items (map (\<lambda>c. VStr [c]) cs) body s) (\<lambda>_. I)"
    by (rule for_items_inv)
  then show ?thesis using VStr by (simp add: for_each_def)
next
  case VNone
  then show ?thesis using for_in_inv [OF assms] by (simp add: for_each_def)
next
  case (VInt x)
  then show ?thesis using for_in_inv [OF assms] by (simp add: for_each_def)
next
  case (VRef x)
  then show ?thesis using for_in_inv [OF assms] by (simp add: for_each_def)
qed

subsection \<open>The indexer\<close>

lemma getitem_in:
  "getitem (VRef a) k h = Some (Inr x, h') \<Longrightarrow> x \<in> set (vals (h ! a))"
  by (drule getitem_from) (simp add: from_obj_def)

lemma index_arg_inv:
  assumes "n \<le> g"
  shows "triple n (inv2 g) (index_arg_s b (VRef g) al i j) (\<lambda>_. inv2 g)"
  unfolding index_arg_s_def
  apply (rule read_keep, rule pure_rules)+
  apply (rule triple_if)
   apply (rule triple_pre [OF wp_skip], simp)
  apply (rule read_keep, rule pure_rules)+
  apply (rule then_inv [where I = "inv2 g"])
   apply (rule triple_pre)
    apply (rule wp_seq wp_if wp_skip wp_setitem wp_append wp_new wp_ret wp_throw
      | (rule wp_pure, rule pure_rules))+
   apply (use assms in \<open>auto simp: inv2_def nth_append nth_list_update\<close>)[1]
  apply (rule read_keep, rule pure_rules)+
  apply (rule then_inv [where I = "inv2 g"])
   apply (rule triple_pre)
    apply (rule wp_seq wp_if wp_skip wp_setitem wp_append wp_new wp_ret wp_throw
      | (rule wp_pure, rule pure_rules))+
   apply (use assms in \<open>auto simp: inv2_def nth_append nth_list_update dest!: getitem_in\<close>)[1]
  apply (rule read_keep, rule pure_rules)+
  apply (rule triple_pre [OF wp_append])
  apply (use assms in \<open>auto simp: inv2_def nth_list_update from_obj_def
      dest!: getitem_from split: val.splits\<close>)
  apply (meson le_less_trans less_imp_le)
  done

lemma index_atom_inv:
  assumes "n \<le> g"
  shows "triple n (inv2 g) (index_atom_s b (VRef g) body_atoms i) (\<lambda>_. inv2 g)"
  unfolding index_atom_s_def
  apply (rule read_keep, rule pure_rules)+
  apply (rule triple_pre [OF for_range_inv [where I = "inv2 g"]])
   apply (rule index_arg_inv [OF assms])
  apply simp
  done

lemma extract_variable_arg_to_atom_map_triple:
  "triple n (\<lambda>h. True) (extract_variable_arg_to_atom_map_s b body_atoms) (\<lambda>_ _. True)"
  unfolding extract_variable_arg_to_atom_map_s_def
  apply (rule read_keep, rule pure_rules)
  apply (rule new_then)
  apply (rule then_inv [where I = "inv2 g" for g])
   apply (rule triple_pre [OF for_range_inv [where I = "inv2 g" for g]])
    apply (rule index_atom_inv, assumption)
   apply (auto simp: inv2_def nth_append)[1]
  apply (rule triple_ret, simp)
  done

lemma triple_frame:
  assumes "triple (length h) (\<lambda>h. True) m Q" and "m h = Some (r, h')"
  shows "keeps (length h) h h'"
  using tripleD(1) [OF assms(1) _ _ assms(2)] by simp

subsection \<open>The resolver only creates its result\<close>

lemma pure_iter_snapshot: "pure_op (iter_snapshot v)"
  unfolding iter_snapshot_def
  by (auto intro!: pure_seq pure_ret pure_throw pure_deref split: val.splits obj.splits)

lemma grow_first_pair: "grow_only (first_pair d ks)"
proof (induction ks)
  case Nil
  show ?case by (simp add: grow_pure pure_ret)
next
  case (Cons k ks)
  show ?case
    apply simp
    apply (rule grow_seq, rule grow_pure, rule pure_getitem)
    apply (rule grow_seq, rule grow_pure, rule pure_iter_snapshot)
    apply (auto split: list.splits intro: Cons.IH grow_new)
    done
qed

lemma grow_search: "grow_only (search_s m v)"
  unfolding search_s_def
  by (intro grow_seq grow_pure pure_getitem pure_iter_snapshot grow_first_pair)

lemma grow_math_expr_entry: "grow_only (math_expr_entry_s m e)"
  unfolding math_expr_entry_s_def
  by (intro grow_seq grow_new grow_search grow_pure [OF pure_getitem])

lemmas grow_rules = grow_search grow_math_expr_entry

subsection \<open>Functions that write to their own containers only\<close>

text \<open>With the trivial invariant every write has to go to an address at or above \<open>n\<close>.\<close>

lemma write_local [simp]:
  "n \<le> a \<Longrightarrow> triple n (\<lambda>h. True) (setitem (VRef a) k x) (\<lambda>_ _. True)"
  "n \<le> a \<Longrightarrow> triple n (\<lambda>h. True) (list_append (VRef a) x) (\<lambda>_ _. True)"
  by (rule triple_pre [OF wp_setitem], simp)
     (rule triple_pre [OF wp_append], simp)

lemma triple_true_pre:
  "triple n (\<lambda>h. True) m (\<lambda>_ _. True) \<Longrightarrow> triple n P m (\<lambda>_ _. True)"
  by (erule triple_pre) simp

lemma true_seq:
  assumes "triple n (\<lambda>h. True) m (\<lambda>_ _. True)"
    and "\<And>x. triple n (\<lambda>h. True) (f x) (\<lambda>_ _. True)"
  shows "triple n (\<lambda>h. True) (seq m f) (\<lambda>_ _. True)"
  by (rule triple_seq [OF assms(1)]) (rule assms(2))

lemma true_grow: "grow_only m \<Longrightarrow> triple n (\<lambda>h. True) m (\<lambda>_ _. True)"
  by (rule triple_grow) simp_all

lemma true_pure: "pure_op m \<Longrightarrow> triple n (\<lambda>h. True) m (\<lambda>_ _. True)"
  by (rule true_grow [OF grow_pure])

lemma true_new_then:
  assumes "\<And>g. n \<le> g \<Longrightarrow> triple n (\<lambda>h. True) (f (VRef g)) (\<lambda>_ _. True)"
  shows "triple n (\<lambda>h. True) (seq (new_obj ob) f) (\<lambda>_ _. True)"
  by (rule new_then) (rule triple_true_pre, rule assms)

lemma true_skip: "triple n (\<lambda>h. True) skip (\<lambda>_ _. True)"
  unfolding skip_def by (rule triple_ret) simp

lemma true_ret: "triple n (\<lambda>h. True) (ret x) (\<lambda>_ _. True)"
  by (rule triple_ret) simp

lemma true_throw: "triple n (\<lambda>h. True) (throw e) (\<lambda>_ _. True)"
  by (rule triple_throw)

lemma true_new: "triple n (\<lambda>h. True) (new_obj ob) (\<lambda>_ _. True)"
  by (rule true_grow [OF grow_new])

lemma true_for_range:
  assumes "\<And>s i. triple n (\<lambda>h. True) (body s i) (\<lambda>_ _. True)"
  shows "triple n (\<lambda>h. True) (for_range is body s) (\<lambda>_ _. True)"
  by (rule for_range_inv [where I = "\<lambda>h. True"]) (rule assms)

lemma true_for_each:
  assumes "\<And>s x. triple n (\<lambda>h. True) (body s x) (\<lambda>_ _. True)"
  shows "triple n (\<lambda>h. True) (for_each fuel v body s) (\<lambda>_ _. True)"
  by (rule for_each_inv [where I = "\<lambda>h. True"]) (rule triple_true_pre, rule assms)

lemmas true_rules =
  true_new_then true_seq true_skip true_ret true_throw true_new triple_if
  true_for_range true_for_each

lemma select_arg_true:
  assumes "n \<le> a1" "n \<le> a2" "n \<le> a3"
  shows "triple n (\<lambda>h. True)
           (select_arg_s b m hl (VRef a1) (VRef a2) (VRef a3) i) (\<lambda>_ _. True)"
  unfolding select_arg_s_def
  by (rule true_rules | (rule write_local, rule assms) | (rule true_pure, rule pure_rules)
      | (rule true_grow, rule grow_rules))+

lemma extract_selection_map_triple:
  "triple n (\<lambda>h. True) (extract_selection_map_s b head m) (\<lambda>_ _. True)"
  unfolding extract_selection_map_s_def
  by (rule true_rules | (rule select_arg_true; assumption) | (rule true_pure, rule pure_rules))+

lemma pure_any_repeated: "pure_op (any_repeated m v ks)"
  by (induction ks) (auto intro!: pure_seq pure_rules)

lemma join_var_true:
  assumes "n \<le> a"
  shows "triple n (\<lambda>h. True) (join_var_s m (VRef a) v) (\<lambda>_ _. True)"
  unfolding join_var_s_def
  by (rule true_rules | (rule write_local, rule assms)
      | (rule true_pure, rule pure_rules pure_iter_snapshot pure_any_repeated))+

lemma extract_join_map_triple:
  "triple n (\<lambda>h. True) (extract_join_map_s fuel m) (\<lambda>_ _. True)"
  unfolding extract_join_map_s_def
  by (rule true_rules | (rule join_var_true, assumption))+

lemma alias_step_true:
  assumes "n \<le> a"
  shows "triple n (\<lambda>h. True) (alias_step_s b fmt (VRef a) k x) (\<lambda>_ _. True)"
  unfolding alias_step_s_def
  by (rule true_rules | (rule write_local, rule assms) | (rule true_pure, rule pure_rules))+

lemma build_atom_aliases_triple:
  "triple n (\<lambda>h. True) (build_atom_aliases_s b fuel body_atoms) (\<lambda>_ _. True)"
  unfolding build_atom_aliases_s_def
  by (rule true_rules | (rule alias_step_true, assumption))+

lemma build_negation_atom_aliases_triple:
  "triple n (\<lambda>h. True) (build_negation_atom_aliases_s b fuel negation_atoms) (\<lambda>_ _. True)"
  unfolding build_negation_atom_aliases_s_def
  by (rule true_rules | (rule alias_step_true, assumption))+

subsection \<open>One level of containers\<close>

lemma constant_arg_inv:
  assumes "n \<le> g"
  shows "triple n (inv1 g) (constant_arg_s b (VRef g) al i j) (\<lambda>_. inv1 g)"
  unfolding constant_arg_s_def
  apply (rule read_keep, rule pure_rules)+
  apply (rule triple_if)
   prefer 2
   apply (rule triple_pre [OF wp_skip], simp)
  apply (rule read_keep, rule pure_rules)+
  apply (rule then_inv [where I = "inv1 g"])
   apply (rule triple_pre)
    apply (rule wp_seq wp_if wp_skip wp_setitem wp_append wp_new wp_ret wp_throw
      | (rule wp_pure, rule pure_rules))+
   apply (use assms in \<open>auto simp: inv1_def nth_append nth_list_update\<close>)[1]
  apply (rule read_keep, rule pure_rules)+
  apply (rule triple_pre [OF wp_setitem])
  apply (use assms in \<open>auto simp: inv1_def nth_list_update dest!: getitem_in\<close>)
  done

lemma constant_atom_inv:
  assumes "n \<le> g"
  shows "triple n (inv1 g) (constant_atom_s b (VRef g) body_atoms i) (\<lambda>_. inv1 g)"
  unfolding constant_atom_s_def
  apply (rule read_keep, rule pure_rules)+
  apply (rule triple_pre [OF for_range_inv [where I = "inv1 g"]])
   apply (rule constant_arg_inv [OF assms])
  apply simp
  done

lemma extract_constant_constraint_map_triple:
  "triple n (\<lambda>h. True) (extract_constant_constraint_map_s b body_atoms) (\<lambda>_ _. True)"
  unfolding extract_constant_constraint_map_s_def
  apply (rule read_keep, rule pure_rules)
  apply (rule new_then)
  apply (rule then_inv [where I = "inv1 g" for g])
   apply (rule triple_pre [OF for_range_inv [where I = "inv1 g" for g]])
    apply (rule constant_atom_inv, assumption)
   apply (auto simp: inv1_def nth_append)[1]
  apply (rule triple_ret, simp)
  done

lemma count_idb_inv:
  assumes "n \<le> g"
  shows "triple n (inv1 g) (count_idb_s b ev (VRef g) k a) (\<lambda>_. inv1 g)"
  unfolding count_idb_s_def
  apply (rule triple_pre)
   apply (rule wp_seq wp_if wp_skip wp_setitem wp_append wp_new wp_ret wp_throw
      | (rule wp_pure, rule pure_rules))+
  apply (use assms in \<open>auto simp: inv1_def nth_append nth_list_update\<close>)
  done

lemma fill_aliases_inv:
  assumes "n \<le> g"
  shows "triple n (inv1 g) (fill_aliases_s b body_atoms ev it (VRef g) i) (\<lambda>_. inv1 g)"
  unfolding fill_aliases_s_def
  apply (rule triple_pre)
   apply (rule wp_seq wp_if wp_skip wp_setitem wp_append wp_new wp_ret wp_throw
      | (rule wp_pure, rule pure_rules))+
  apply (use assms in \<open>auto simp: inv1_def nth_append nth_list_update dest!: getitem_in\<close>)
  done

lemma build_recursive_atom_aliases_triple:
  "triple n (\<lambda>h. True) (build_recursive_atom_aliases_s b fuel body_atoms ev it) (\<lambda>_ _. True)"
  unfolding build_recursive_atom_aliases_s_def
  apply (rule read_keep, rule pure_rules)
  apply (rule new_then)
  apply (rule then_inv [where I = "inv1 g" for g])
   apply (rule triple_pre [OF for_each_inv [where I = "inv1 g" for g]])
    apply (rule triple_pre [OF count_idb_inv], assumption, simp)
   apply (auto simp: inv1_def nth_append)[1]
  apply (rule then_inv [where I = "inv1 g" for g])
   apply (rule for_range_inv [where I = "inv1 g" for g])
   apply (rule fill_aliases_inv, assumption)
  apply (rule triple_true_pre [OF true_new])
  done

subsection \<open>Invariants along a function body\<close>

lemma inv_seq:
  assumes "triple n I m (\<lambda>_. I)" and "\<And>x. triple n I (f x) (\<lambda>_. I)"
  shows "triple n I (seq m f) (\<lambda>_. I)"
  using assms by (rule triple_seq)

lemma inv_pure: "pure_op m \<Longrightarrow> triple n I m (\<lambda>_. I)"
  by (rule triple_pre [OF wp_pure]) simp_all

lemma inv_grow: "grow_only m \<Longrightarrow> stable I \<Longrightarrow> triple n I m (\<lambda>_. I)"
  by (rule triple_grow) (auto simp: stable_def)

lemma inv_if:
  assumes "triple n I m1 (\<lambda>_. I)" and "triple n I m2 (\<lambda>_. I)"
  shows "triple n I (if c then m1 else m2) (\<lambda>_. I)"
  using assms by (cases c) auto

lemma inv_skip: "triple n I skip (\<lambda>_. I)"
  by (rule wp_skip)

lemma inv_throw: "triple n I (throw e) (\<lambda>_. I)"
  by (rule triple_pre [OF wp_throw]) simp

lemma pure_if: "pure_op m1 \<Longrightarrow> pure_op m2 \<Longrightarrow> pure_op (if c then m1 else m2)"
  by simp

lemmas inv_rules = inv_seq inv_if inv_skip inv_throw

subsection \<open>The comparison extractor\<close>

lemma stable_inv2: "stable (inv2 g)"
  by (auto simp: stable_def inv2_def keeps_def)

lemma stable_inv2s: "stable (inv2s g s)"
  by (auto simp: stable_def inv2s_def inv2_def keeps_def)

lemma new_entry_inv2:
  assumes "n \<le> g"
  shows "triple n (inv2 g) (seq (new_obj (ODict [])) (\<lambda>d. setitem (VRef g) k d)) (\<lambda>_. inv2 g)"
  apply (rule triple_pre)
   apply (rule wp_seq wp_setitem wp_new)+
  apply (use assms in \<open>auto simp: inv2_def nth_append nth_list_update\<close>)
  done

lemma new_list_inv2:
  assumes "n \<le> g"
  shows "triple n (inv2 g)
           (seq (new_obj (OList [])) (\<lambda>l.
            seq (getitem (VRef g) k) (\<lambda>inner1. setitem inner1 k' l))) (\<lambda>_. inv2 g)"
  apply (rule triple_pre)
   apply (rule wp_seq wp_setitem wp_new | (rule wp_pure, rule pure_rules))+
  apply (use assms in \<open>auto simp: inv2_def nth_append nth_list_update dest!: getitem_in\<close>)
  done

lemma struct_write_inv2s:
  assumes "n \<le> g"
  shows "triple n (inv2s g s) (setitem (VRef s) k v) (\<lambda>_. inv2s g s)"
  apply (rule triple_pre [OF wp_setitem])
  apply (use assms in \<open>auto simp: inv2s_def inv2_def nth_list_update\<close>)
  done

lemma struct_append_inv2s:
  assumes "n \<le> g"
  shows "triple n (inv2s g s)
           (seq (getitem (VRef g) k) (\<lambda>inner2.
            seq (getitem inner2 k') (\<lambda>l. list_append l (VRef s)))) (\<lambda>_. inv2s g s)"
  apply (rule triple_pre)
   apply (rule wp_seq wp_append | (rule wp_pure, rule pure_rules))+
  apply (use assms in \<open>auto simp: inv2s_def inv2_def nth_list_update from_obj_def
      dest!: getitem_from split: val.splits\<close>)
    apply (meson le_less_trans less_imp_le)
   apply (meson less_irrefl)+
  done

lemma struct_tail:
  assumes "\<And>s. triple n (inv2s g s) (f (VRef s)) (\<lambda>_. inv2s g s)"
  shows "triple n (inv2 g) (seq (new_obj (ODict [])) f) (\<lambda>_. inv2 g)"
  apply (rule new_then)
  apply (rule triple_pre [OF triple_post [OF assms]])
   apply (simp add: inv2s_def)
  apply (auto simp: inv2s_def inv2_def nth_append)
  done

lemma comparison_inv:
  assumes "n \<le> g"
  shows "triple n (inv2 g) (comparison_s b m (VRef g) comparison) (\<lambda>_. inv2 g)"
  unfolding comparison_s_def
  by (rule new_entry_inv2 [OF assms] new_list_inv2 [OF assms]
        struct_write_inv2s [OF assms] struct_append_inv2s [OF assms]
      | rule struct_tail
      | rule inv_rules
      | (rule inv_pure, rule pure_rules)
      | (rule inv_pure, rule pure_if, rule pure_rules, rule pure_rules)
      | (rule inv_grow, rule grow_rules, rule stable_inv2 stable_inv2s))+

lemma extract_comparison_map_triple:
  "triple n (\<lambda>h. True) (extract_comparison_map_s b fuel body_comparisons m) (\<lambda>_ _. True)"
  unfolding extract_comparison_map_s_def
  apply (rule new_then)
  apply (rule then_inv [where I = "inv2 g" for g])
   apply (rule triple_pre [OF for_each_inv [where I = "inv2 g" for g]])
    apply (rule triple_pre [OF comparison_inv], assumption, simp)
   apply (auto simp: inv2_def nth_append)[1]
  apply (rule triple_ret, simp)
  done

subsection \<open>The negation planner\<close>

lemma seq_assoc: "seq (seq m f) k = seq m (\<lambda>x. seq (f x) k)"
  by (auto simp: seq_def fun_eq_iff split: option.splits sum.splits prod.splits)

lemma new_set_then:
  assumes "triple n I (seq (new_obj ob) (\<lambda>d. setitem a k d)) (\<lambda>_. I)"
    and "\<And>x. triple n I (f x) (\<lambda>_. I)"
  shows "triple n I (seq (new_obj ob) (\<lambda>d. seq (setitem a k d) f)) (\<lambda>_. I)"
  using inv_seq [OF assms] by (simp add: seq_assoc)

lemma get_set_then:
  assumes "triple n I (seq (getitem a k) (\<lambda>e. setitem e k' v)) (\<lambda>_. I)"
    and "\<And>x. triple n I (f x) (\<lambda>_. I)"
  shows "triple n I (seq (getitem a k) (\<lambda>e. seq (setitem e k' v) f)) (\<lambda>_. I)"
  using inv_seq [OF assms] by (simp add: seq_assoc)

lemma stable_inv1: "stable (inv1 g)"
  by (auto simp: stable_def inv1_def keeps_def)

lemma inv3_alloc:
  assumes "inv3 lo g h"
  shows "inv3 lo g (h @ [ob])"
proof -
  have top: "g < lo" "lo \<le> length h"
    and bs: "\<And>b. VRef b \<in> set (vals (h ! g)) \<Longrightarrow> lo \<le> b \<and> b < length h"
    and cs: "\<And>b c. VRef b \<in> set (vals (h ! g)) \<Longrightarrow> VRef c \<in> set (vals (h ! b)) \<Longrightarrow>
               lo \<le> c \<and> c < length h \<and> VRef c \<notin> set (vals (h ! g))"
    using assms unfolding inv3_def by blast+
  have g: "(h @ [ob]) ! g = h ! g" using top by (simp add: nth_append)
  have old: "(h @ [ob]) ! b = h ! b" if "VRef b \<in> set (vals (h ! g))" for b
    using bs [OF that] by (simp add: nth_append)
  show ?thesis
    unfolding inv3_def g
  proof (intro conjI allI impI)
    fix b assume b: "VRef b \<in> set (vals (h ! g))"
    then show "lo \<le> b" "b < length (h @ [ob])" using bs [OF b] by simp_all
    fix c assume "VRef c \<in> set (vals ((h @ [ob]) ! b))"
    then have "VRef c \<in> set (vals (h ! b))" using old [OF b] by simp
    from cs [OF b this]
    show "lo \<le> c" "c < length (h @ [ob])" "VRef c \<notin> set (vals (h ! g))" by simp_all
  qed (use top in auto)
qed

lemma inv3_write_leaf:
  assumes "inv3 lo g h" and "a \<noteq> g" and "VRef a \<notin> set (vals (h ! g))"
  shows "inv3 lo g (h[a := ob])"
proof -
  have g: "h[a := ob] ! g = h ! g" using assms(2) by simp
  have b: "h[a := ob] ! b = h ! b" if "VRef b \<in> set (vals (h ! g))" for b
    using that assms(3) by (cases "a = b") auto
  show ?thesis
    using assms(1) unfolding inv3_def g by (auto simp: b)
qed

lemma inv3_write_inner:
  assumes "inv3 lo g h" and "VRef b \<in> set (vals (h ! g))"
    and "set (vals ob) \<subseteq> insert (VRef c) (set (vals (h ! b)))"
    and "lo \<le> c" and "c < length h" and "VRef c \<notin> set (vals (h ! g))"
  shows "inv3 lo g (h[b := ob])"
proof -
  from assms(1,2) have bg: "b \<noteq> g" and bl: "b < length h"
    unfolding inv3_def by auto
  have g: "h[b := ob] ! g = h ! g" using bg by simp
  have other: "h[b := ob] ! b' = (if b' = b then ob else h ! b')"
    if "VRef b' \<in> set (vals (h ! g))" for b'
    using that bl by (auto simp: nth_list_update)
  have old: "lo \<le> c' \<and> c' < length h \<and> VRef c' \<notin> set (vals (h ! g))"
    if "VRef b' \<in> set (vals (h ! g))" and "VRef c' \<in> set (vals (h ! b'))" for b' c'
    using assms(1) that unfolding inv3_def by blast
  have new: "lo \<le> c' \<and> c' < length h \<and> VRef c' \<notin> set (vals (h ! g))"
    if "VRef c' \<in> set (vals ob)" for c'
  proof (cases "c' = c")
    case True
    then show ?thesis using assms(4,5,6) by simp
  next
    case False
    then have "VRef c' \<in> set (vals (h ! b))" using that assms(3) by auto
    then show ?thesis using old [OF assms(2)] by blast
  qed
  have top: "g < lo \<and> lo \<le> length h"
    and bs: "\<And>b'. VRef b' \<in> set (vals (h ! g)) \<Longrightarrow> lo \<le> b' \<and> b' < length h"
    using assms(1) unfolding inv3_def by blast+
  show ?thesis
    unfolding inv3_def g
  proof (intro conjI allI impI)
    fix b' c'
    assume b': "VRef b' \<in> set (vals (h ! g))"
      and c': "VRef c' \<in> set (vals (h[b := ob] ! b'))"
    have "lo \<le> c' \<and> c' < length h \<and> VRef c' \<notin> set (vals (h ! g))"
    proof (cases "b' = b")
      case True
      then show ?thesis using c' new bl by simp
    next
      case False
      then show ?thesis using c' old [OF b'] by simp
    qed
    then show "lo \<le> c'" "c' < length (h[b := ob])" "VRef c' \<notin> set (vals (h ! g))"
      by simp_all
  qed (use top bs in auto)
qed

lemma inv3_write_root:
  assumes "inv3 lo g h"
    and "set (vals ob) \<subseteq> insert (VRef (length h)) (set (vals (h ! g)))"
  shows "inv3 lo g ((h @ [ODict []])[g := ob])"
proof -
  let ?h = "(h @ [ODict []])[g := ob]"
  have top: "g < lo" "lo \<le> length h"
    and bs: "\<And>b. VRef b \<in> set (vals (h ! g)) \<Longrightarrow> lo \<le> b \<and> b < length h"
    and cs: "\<And>b c. VRef b \<in> set (vals (h ! g)) \<Longrightarrow> VRef c \<in> set (vals (h ! b)) \<Longrightarrow>
               lo \<le> c \<and> c < length h \<and> VRef c \<notin> set (vals (h ! g))"
    using assms(1) unfolding inv3_def by blast+
  have g: "?h ! g = ob" using top by simp
  have fresh: "?h ! length h = ODict []" using top by (simp add: nth_list_update)
  have old: "?h ! b = h ! b" if "VRef b \<in> set (vals (h ! g))" for b
    using bs [OF that] top by (simp add: nth_list_update nth_append)
  show ?thesis
    unfolding inv3_def g
  proof (intro conjI allI impI)
    fix b assume b: "VRef b \<in> set (vals ob)"
    then consider "b = length h" | "VRef b \<in> set (vals (h ! g))" using assms(2) by auto
    then show "lo \<le> b" "b < length ?h"
      using top bs by (auto simp: less_Suc_eq)
  next
    fix b c assume b: "VRef b \<in> set (vals ob)" and c: "VRef c \<in> set (vals (?h ! b))"
    from b consider "b = length h" | "VRef b \<in> set (vals (h ! g))" using assms(2) by auto
    then have "VRef b \<in> set (vals (h ! g)) \<and> VRef c \<in> set (vals (h ! b))"
    proof cases
      case 1
      then show ?thesis using c fresh by simp
    next
      case 2
      then show ?thesis using c old by simp
    qed
    then have *: "lo \<le> c \<and> c < length h \<and> VRef c \<notin> set (vals (h ! g))"
      using cs by blast
    then show "lo \<le> c" "c < length ?h" by simp_all
    show "VRef c \<notin> set (vals ob)"
    proof
      assume "VRef c \<in> set (vals ob)"
      then have "c = length h \<or> VRef c \<in> set (vals (h ! g))" using assms(2) by auto
      then show False using * by auto
    qed
  qed (use top in auto)
qed

subsection \<open>Writes as proof rules\<close>

lemma write_rule:
  assumes "\<And>h. I h \<Longrightarrow> J h"
    and "\<And>h a ob. I h \<Longrightarrow> v = VRef a \<Longrightarrow> a < length h \<Longrightarrow>
           set (vals ob) \<subseteq> insert x (set (vals (h ! a))) \<Longrightarrow> n \<le> a \<and> J (h[a := ob])"
  shows "triple n I (setitem v k x) (\<lambda>_. J)" and "triple n I (list_append v x) (\<lambda>_. J)"
proof -
  have pre: "J h \<and> (\<forall>a. v = VRef a \<longrightarrow> a < length h \<longrightarrow>
              n \<le> a \<and> (\<forall>ob. set (vals ob) \<subseteq> insert x (set (vals (h ! a))) \<longrightarrow>
                         J (h[a := ob])))" if "I h" for h
  proof (intro conjI allI impI)
    show "J h" using that by (rule assms(1))
  next
    fix a assume a: "v = VRef a" "a < length h"
    have "set (vals (h ! a)) \<subseteq> insert x (set (vals (h ! a)))" by auto
    from assms(2) [OF that a this] show "n \<le> a" by simp
  next
    fix a ob assume "v = VRef a" "a < length h"
      "set (vals ob) \<subseteq> insert x (set (vals (h ! a)))"
    from assms(2) [OF that this] show "J (h[a := ob])" by simp
  qed
  show "triple n I (setitem v k x) (\<lambda>_. J)"
    by (rule triple_pre [OF wp_setitem]) (rule pre)
  show "triple n I (list_append v x) (\<lambda>_. J)"
    by (rule triple_pre [OF wp_append]) (rule pre)
qed

lemma new_write_rule:
  assumes "\<And>h. I h \<Longrightarrow> J (h @ [o1])"
    and "\<And>h a ob. I h \<Longrightarrow> v = VRef a \<Longrightarrow> a < length h \<Longrightarrow>
           set (vals ob) \<subseteq> insert (VRef (length h)) (set (vals (h ! a))) \<Longrightarrow>
           n \<le> a \<and> J ((h @ [o1])[a := ob])"
    and "\<And>h. I h \<Longrightarrow> v \<noteq> VRef (length h)"
  shows "triple n I (seq (new_obj o1) (\<lambda>d. setitem v k d)) (\<lambda>_. J)"
proof (rule new_then)
  fix g assume "n \<le> g"
  show "triple n (\<lambda>h'. \<exists>h. I h \<and> h' = h @ [o1] \<and> g = length h)
          (setitem v k (VRef g)) (\<lambda>_. J)"
  proof (rule write_rule(1))
    fix h' assume "\<exists>h. I h \<and> h' = h @ [o1] \<and> g = length h"
    then show "J h'" using assms(1) by blast
  next
    fix h' a ob
    assume pre: "\<exists>h. I h \<and> h' = h @ [o1] \<and> g = length h" and a: "v = VRef a" "a < length h'"
      and ob: "set (vals ob) \<subseteq> insert (VRef g) (set (vals (h' ! a)))"
    from pre obtain h where h: "I h" "h' = h @ [o1]" "g = length h" by blast
    have "a \<noteq> length h" using assms(3) [OF h(1)] a(1) by simp
    then have al: "a < length h" using a(2) h(2) by simp
    then have "h' ! a = h ! a" using h(2) by (simp add: nth_append)
    then have "set (vals ob) \<subseteq> insert (VRef (length h)) (set (vals (h ! a)))"
      using ob h(3) by simp
    from assms(2) [OF h(1) a(1) al this] show "n \<le> a \<and> J (h'[a := ob])"
      using h(2) by simp
  qed
qed

lemma get_write_rule:
  assumes "\<And>h. I h \<Longrightarrow> J h"
    and "\<And>h c ob. I h \<Longrightarrow> from_obj h a (VRef c) \<Longrightarrow> c < length h \<Longrightarrow>
           set (vals ob) \<subseteq> insert x (set (vals (h ! c))) \<Longrightarrow> n \<le> c \<and> J (h[c := ob])"
  shows "triple n I (seq (getitem a k) (\<lambda>e. setitem e k' x)) (\<lambda>_. J)"
    and "triple n I (seq (getitem a k) (\<lambda>e. list_append e x)) (\<lambda>_. J)"
proof -
  have w: "triple n (\<lambda>h. I h \<and> getitem a k h = Some (Inr e, h)) (setitem e k' x) (\<lambda>_. J)"
    "triple n (\<lambda>h. I h \<and> getitem a k h = Some (Inr e, h)) (list_append e x) (\<lambda>_. J)" for e
  proof -
    have 1: "J h" if "I h \<and> getitem a k h = Some (Inr e, h)" for h
      using that assms(1) by simp
    have 2: "n \<le> c \<and> J (h[c := ob])"
      if "I h \<and> getitem a k h = Some (Inr e, h)" "e = VRef c" "c < length h"
        "set (vals ob) \<subseteq> insert x (set (vals (h ! c)))" for h c ob
    proof -
      from that(1,2) have "from_obj h a (VRef c)" by (auto dest: getitem_from)
      with that show ?thesis using assms(2) by blast
    qed
    show "triple n (\<lambda>h. I h \<and> getitem a k h = Some (Inr e, h)) (setitem e k' x) (\<lambda>_. J)"
      by (rule write_rule(1) [OF 1 2])
    show "triple n (\<lambda>h. I h \<and> getitem a k h = Some (Inr e, h)) (list_append e x) (\<lambda>_. J)"
      by (rule write_rule(2) [OF 1 2])
  qed
  show "triple n I (seq (getitem a k) (\<lambda>e. setitem e k' x)) (\<lambda>_. J)"
    by (rule read_keep [OF pure_getitem]) (rule w)
  show "triple n I (seq (getitem a k) (\<lambda>e. list_append e x)) (\<lambda>_. J)"
    by (rule read_keep [OF pure_getitem]) (rule w)
qed

subsection \<open>The three writes of the negation map\<close>

lemma inv3D:
  assumes "inv3 lo g h"
  shows "g < lo" "lo \<le> length h" "g < length h"
    and "\<And>b. VRef b \<in> set (vals (h ! g)) \<Longrightarrow> lo \<le> b \<and> b < length h \<and> g < b"
    and "\<And>b c. VRef b \<in> set (vals (h ! g)) \<Longrightarrow> VRef c \<in> set (vals (h ! b)) \<Longrightarrow>
           lo \<le> c \<and> c < length h \<and> g < c \<and> VRef c \<notin> set (vals (h ! g))"
  using assms unfolding inv3_def by (blast intro: less_le_trans)+

lemma inv3_fresh: "inv3 lo g h \<Longrightarrow> VRef (length h) \<notin> set (vals (h ! g))"
  by (auto dest: inv3D(4))

lemma new_arg_entry:
  assumes "n \<le> g1"
  shows "triple n (neg_atom_inv g1 g2 nam)
           (seq (new_obj (ODict [])) (\<lambda>d. setitem nam k d)) (\<lambda>_. neg_atom_inv g1 g2 nam)"
proof (rule new_write_rule)
  fix h assume I: "neg_atom_inv g1 g2 nam h"
  then have i3: "inv3 (g2 + 1) g1 h" and g: "g1 < g2" "h ! g2 = ODict []"
    and nam: "nam \<in> set (vals (h ! g1))"
    by (simp_all add: neg_atom_inv_def neg_inv_def)
  have g2: "g2 < length h" and g1: "g1 < length h" using inv3D(2,3) [OF i3] by simp_all
  show "neg_atom_inv g1 g2 nam (h @ [ODict []])"
    using inv3_alloc [OF i3] g nam g1 g2 by (simp add: neg_atom_inv_def neg_inv_def nth_append)
  show "nam \<noteq> VRef (length h)" using inv3_fresh [OF i3] nam by auto
  fix a ob
  assume a: "nam = VRef a" "a < length h"
    and ob: "set (vals ob) \<subseteq> insert (VRef (length h)) (set (vals (h ! a)))"
  let ?h = "h @ [ODict []]"
  have a_in: "VRef a \<in> set (vals (h ! g1))" using nam a by simp
  from inv3D(4) [OF i3 a_in] have a_lo: "g2 + 1 \<le> a" "g1 < a" by simp_all
  have "inv3 (g2 + 1) g1 (?h[a := ob])"
  proof (rule inv3_write_inner [OF inv3_alloc [OF i3], where c = "length h"])
    show "VRef a \<in> set (vals (?h ! g1))" using a_in g1 by (simp add: nth_append)
    show "set (vals ob) \<subseteq> insert (VRef (length h)) (set (vals (?h ! a)))"
      using ob a(2) by (simp add: nth_append)
    show "g2 + 1 \<le> length h" using g2 by simp
    show "length h < length ?h" by simp
    show "VRef (length h) \<notin> set (vals (?h ! g1))"
      using inv3_fresh [OF i3] g1 by (simp add: nth_append)
  qed
  moreover have "?h[a := ob] ! g2 = ODict []" using a_lo g g2 by (simp add: nth_append)
  moreover have "?h[a := ob] ! g1 = h ! g1" using a_lo g1 by (simp add: nth_append)
  ultimately have "neg_atom_inv g1 g2 nam (?h[a := ob])"
    using g nam by (simp add: neg_atom_inv_def neg_inv_def)
  moreover have "n \<le> a" using assms a_lo by simp
  ultimately show "n \<le> a \<and> neg_atom_inv g1 g2 nam (?h[a := ob])" by simp
qed

lemma fill_arg_entry:
  assumes "n \<le> g1"
  shows "triple n (neg_atom_inv g1 g2 nam)
           (seq (getitem nam k) (\<lambda>e. setitem e k' v)) (\<lambda>_. neg_atom_inv g1 g2 nam)"
proof (rule get_write_rule(1))
  fix h c ob
  assume I: "neg_atom_inv g1 g2 nam h" and fr: "from_obj h nam (VRef c)"
    and c: "c < length h"
  from I have i3: "inv3 (g2 + 1) g1 h" and g: "g1 < g2" "h ! g2 = ODict []"
    and nam: "nam \<in> set (vals (h ! g1))"
    by (simp_all add: neg_atom_inv_def neg_inv_def)
  from fr obtain b where b: "nam = VRef b" "VRef c \<in> set (vals (h ! b))"
    by (cases nam) (auto simp: from_obj_def)
  have b_in: "VRef b \<in> set (vals (h ! g1))" using nam b by simp
  from inv3D(5) [OF i3 b_in b(2)]
  have c_lo: "g2 + 1 \<le> c" "g1 < c" and c_out: "VRef c \<notin> set (vals (h ! g1))" by simp_all
  have "inv3 (g2 + 1) g1 (h[c := ob])"
    by (rule inv3_write_leaf [OF i3]) (use c_lo c_out in auto)
  moreover have "h[c := ob] ! g2 = ODict []" using c_lo g by simp
  moreover have "h[c := ob] ! g1 = h ! g1" using c_lo by simp
  ultimately have "neg_atom_inv g1 g2 nam (h[c := ob])"
    using g nam by (simp add: neg_atom_inv_def neg_inv_def)
  moreover have "n \<le> c" using assms c_lo by simp
  ultimately show "n \<le> c \<and> neg_atom_inv g1 g2 nam (h[c := ob])" by simp
qed

lemma new_atom_entry:
  assumes "n \<le> g1"
  shows "triple n (neg_inv g1 g2)
           (seq (new_obj (ODict [])) (\<lambda>d. setitem (VRef g1) k d)) (\<lambda>_. neg_inv g1 g2)"
proof (rule new_write_rule)
  fix h assume I: "neg_inv g1 g2 h"
  then have i3: "inv3 (g2 + 1) g1 h" and g: "g1 < g2" "h ! g2 = ODict []"
    by (simp_all add: neg_inv_def)
  have g2: "g2 < length h" and g1: "g1 < length h" using inv3D(2,3) [OF i3] by simp_all
  show "neg_inv g1 g2 (h @ [ODict []])"
    using inv3_alloc [OF i3] g g2 by (simp add: neg_inv_def nth_append)
  show "VRef g1 \<noteq> VRef (length h)" using g1 by simp
  fix a ob
  assume a: "VRef g1 = VRef a"
    and ob: "set (vals ob) \<subseteq> insert (VRef (length h)) (set (vals (h ! a)))"
  let ?h = "h @ [ODict []]"
  have "inv3 (g2 + 1) g1 (?h[g1 := ob])"
    by (rule inv3_write_root [OF i3]) (use ob a in simp)
  moreover have "?h[g1 := ob] ! g2 = ODict []" using g g2 by (simp add: nth_append)
  ultimately show "n \<le> a \<and> neg_inv g1 g2 (?h[a := ob])"
    using a assms g by (simp add: neg_inv_def)
qed

lemma negation_arg_inv:
  assumes "n \<le> g1"
  shows "triple n (neg_atom_inv g1 g2 nam) (negation_arg_s nam al j)
           (\<lambda>_. neg_atom_inv g1 g2 nam)"
  unfolding negation_arg_s_def
  by (rule new_arg_entry [OF assms] fill_arg_entry [OF assms]
      | rule new_set_then get_set_then
      | rule inv_rules
      | (rule inv_pure, rule pure_rules))+

lemma negation_atom_inv:
  assumes "n \<le> g1"
  shows "triple n (neg_inv g1 g2) (negation_atom_s (VRef g1) atoms i) (\<lambda>_. neg_inv g1 g2)"
  unfolding negation_atom_s_def
  apply (rule inv_seq, rule inv_pure, rule pure_rules)+
  apply (rule new_set_then)
   apply (rule new_atom_entry [OF assms])
  apply (rule read_keep, rule pure_rules)
  apply (rule triple_pre [OF triple_post [OF for_range_inv
          [where I = "neg_atom_inv g1 g2 nam" for nam]]])
    apply (rule negation_arg_inv [OF assms])
   apply (simp add: neg_atom_inv_def)
  apply (auto simp: neg_atom_inv_def dest!: getitem_in)
  done

subsection \<open>The anti-join map\<close>

lemma new_entry_inv1:
  assumes "n \<le> g"
  shows "triple n (inv1 g) (seq (new_obj (ODict [])) (\<lambda>d. setitem (VRef g) k d)) (\<lambda>_. inv1 g)"
  apply (rule triple_pre)
   apply (rule wp_seq wp_setitem wp_new)+
  apply (use assms in \<open>auto simp: inv1_def nth_append nth_list_update\<close>)
  done

lemma set_inner_inv1:
  assumes "n \<le> g"
  shows "triple n (inv1 g) (seq (getitem (VRef g) k) (\<lambda>inner. setitem inner k' r)) (\<lambda>_. inv1 g)"
proof (rule get_write_rule(1))
  fix h c ob
  assume "inv1 g h" and "from_obj h (VRef g) (VRef c)"
  then have "g < c" "g < length h" "\<forall>c. VRef c \<in> set (vals (h ! g)) \<longrightarrow> g < c"
    by (auto simp: inv1_def from_obj_def)
  then show "n \<le> c \<and> inv1 g (h[c := ob])"
    using assms by (simp add: inv1_def)
qed

lemma anti_join_arg_inv:
  assumes "n \<le> g"
  shows "triple n (inv1 g) (anti_join_arg_s b m (VRef g) i nam j) (\<lambda>_. inv1 g)"
  unfolding anti_join_arg_s_def
  by (rule new_entry_inv1 [OF assms] set_inner_inv1 [OF assms]
      | rule inv_rules
      | (rule inv_pure, rule pure_rules)
      | (rule inv_grow, rule grow_rules, rule stable_inv1))+

lemma negation_loops:
  assumes "n \<le> g1" and "n \<le> g2"
  shows "triple n (\<lambda>h2. \<exists>h1. (\<exists>h. P h \<and> h1 = h @ [ODict []] \<and> g1 = length h) \<and>
                         h2 = h1 @ [ODict []] \<and> g2 = length h1)
           (seq (for_range is
                   (\<lambda>_ negation_idx. negation_atom_s (VRef g1) body_negation_atoms negation_idx) ())
             (\<lambda>_.
            seq (for_each fuel (VRef g1)
                   (\<lambda>_ negation_atom_idx.
                      seq (getitem (VRef g1) negation_atom_idx) (\<lambda>negation_atom_map.
                        for_each fuel negation_atom_map
                          (\<lambda>_ arg_idx. anti_join_arg_s b m (VRef g2) negation_atom_idx
                                         negation_atom_map arg_idx) ())) ()) (\<lambda>_.
              new_obj (ODict [(VStr ''negation_map'', VRef g1),
                              (VStr ''anti_join_map'', VRef g2)]))))
           (\<lambda>_ _. True)"
  apply (rule then_inv [where I = "neg_inv g1 g2"])
   apply (rule triple_pre [OF for_range_inv [where I = "neg_inv g1 g2"]])
    apply (rule negation_atom_inv [OF assms(1)])
   apply (auto simp: neg_inv_def inv3_def nth_append)[1]
  apply (rule then_inv [where I = "inv1 g2"])
   apply (rule triple_pre [OF for_each_inv [where I = "inv1 g2"]])
    apply (rule triple_pre [OF inv_seq])
      apply (rule inv_pure, rule pure_rules)
     apply (rule for_each_inv)
     apply (rule triple_pre [OF anti_join_arg_inv [OF assms(2)]], simp)
    apply simp
   apply (auto simp: neg_inv_def inv3_def inv1_def)[1]
  apply (rule triple_true_pre [OF true_new])
  done

lemma extract_negation_map_triple:
  "triple n (\<lambda>h. True) (extract_negation_map_s b fuel body_negation_atoms m) (\<lambda>_ _. True)"
  unfolding extract_negation_map_s_def
  apply (rule read_keep, rule pure_rules)
  apply (rule new_then)
  apply (rule new_then)
  apply (rule negation_loops)
   apply assumption+
  done

subsection \<open>\<open>deepcopy\<close> only creates objects\<close>

lemma dc_okD:
  assumes "dc_ok cp" and "cp mm v h = (r, mm', h')"
  shows "keeps (length h) h h'" "memo_le mm mm'" "memo_new mm mm' (length h) (length h')"
    and "r = Inr x \<Longrightarrow> copy_of mm' v x"
  using assms unfolding dc_ok_def by blast+

lemma memo_le_refl: "memo_le mm mm"
  by (simp add: memo_le_def)

lemma memo_le_trans: "memo_le a b \<Longrightarrow> memo_le b c \<Longrightarrow> memo_le a c"
  by (simp add: memo_le_def)

lemma memo_new_refl: "memo_new mm mm lo hi"
  by (simp add: memo_new_def)

lemma memo_new_trans:
  assumes "memo_new a b lo mid" and "memo_new b c mid' hi" and "lo \<le> mid'" and "mid \<le> hi"
  shows "memo_new a c lo hi"
  unfolding memo_new_def
proof (intro allI impI)
  fix k t assume "map_of c k = Some t"
  with assms(2) have "map_of b k = Some t \<or> (mid' \<le> t \<and> t < hi)" by (simp add: memo_new_def)
  then show "map_of a k = Some t \<or> (lo \<le> t \<and> t < hi)"
  proof
    assume "map_of b k = Some t"
    with assms(1) have "map_of a k = Some t \<or> (lo \<le> t \<and> t < mid)" by (simp add: memo_new_def)
    then show ?thesis using assms(4) by auto
  next
    assume "mid' \<le> t \<and> t < hi"
    then show ?thesis using assms(3) by auto
  qed
qed

lemma copy_of_mono: "copy_of mm v x \<Longrightarrow> memo_le mm mm' \<Longrightarrow> copy_of mm' v x"
  by (auto simp: copy_of_def memo_le_def split: val.splits)

lemma keeps_length: "keeps n h h' \<Longrightarrow> length h \<le> length h'"
  by (simp add: keeps_def)

lemma keeps_weaken: "keeps n h h' \<Longrightarrow> m \<le> n \<Longrightarrow> keeps m h h'"
  by (simp add: keeps_def)

lemma copy_elems_ok:
  assumes "dc_ok cp"
  shows "c < length h \<Longrightarrow> copy_elems cp c xs mm h = (r, mm', h') \<Longrightarrow>
         keeps c h h' \<and> memo_le mm mm' \<and> memo_new mm mm' (length h) (length h') \<and>
         (\<forall>ys u. h ! c = OList ys \<longrightarrow> r = Inr u \<longrightarrow>
            (\<exists>zs. h' ! c = OList (ys @ zs) \<and> (\<forall>z\<in>set zs. \<exists>x\<in>set xs. copy_of mm' x z)))"
proof (induction xs arbitrary: mm h)
  case Nil
  then show ?case by (simp add: keeps_refl memo_le_refl memo_new_refl)
next
  case (Cons x xs)
  obtain r1 mm1 h1 where cp: "cp mm x h = (r1, mm1, h1)" by (cases "cp mm x h")
  note ok = dc_okD [OF assms cp]
  have len1: "length h \<le> length h1" using ok(1) by (rule keeps_length)
  have same: "h1 ! c = h ! c" using ok(1) Cons.prems(1) by (simp add: keeps_def)
  show ?case
  proof (cases r1)
    case (Inl e)
    then have "r = Inl e" "mm' = mm1" "h' = h1" using Cons.prems(2) cp by simp_all
    then show ?thesis using ok(1-3) Cons.prems(1) by (simp add: keeps_weaken)
  next
    case (Inr y)
    define h2 where "h2 = (case h1 ! c of OList l \<Rightarrow> h1[c := OList (l @ [y])] | _ \<Rightarrow> h1)"
    have rest: "copy_elems cp c xs mm1 h2 = (r, mm', h')"
      using Cons.prems(2) cp Inr by (simp add: h2_def)
    have len2: "length h2 = length h1" by (simp add: h2_def split: obj.splits)
    have c2: "c < length h2" using len1 len2 Cons.prems(1) by simp
    have k12: "keeps c h1 h2" by (auto simp: h2_def keeps_def split: obj.splits)
    note ih = Cons.IH [OF c2 rest]
    have k: "keeps c h h'"
      using keeps_trans [OF keeps_trans [OF keeps_weaken [OF ok(1)] k12]] ih Cons.prems(1)
      by simp
    have le: "memo_le mm mm'" using ok(2) ih by (blast intro: memo_le_trans)
    have new: "memo_new mm mm' (length h) (length h')"
    proof (rule memo_new_trans [OF ok(3)])
      show "memo_new mm1 mm' (length h2) (length h')" using ih by simp
      show "length h \<le> length h2" using len1 len2 by simp
      show "length h1 \<le> length h'" using ih len2 by (auto dest: keeps_length)
    qed
    have content: "\<exists>zs. h' ! c = OList (ys @ zs) \<and> (\<forall>z\<in>set zs. \<exists>x'\<in>set (x # xs). copy_of mm' x' z)"
      if ys: "h ! c = OList ys" and u: "r = Inr u" for ys u
    proof -
      have h2c: "h2 ! c = OList ((ys @ [y]))"
        using ys same c2 len2 by (simp add: h2_def)
      from ih h2c u obtain zs where zs: "h' ! c = OList ((ys @ [y]) @ zs)"
        "\<forall>z\<in>set zs. \<exists>x\<in>set xs. copy_of mm' x z" by blast
      have "copy_of mm1 x y" using ok(4) Inr by simp
      then have y: "copy_of mm' x y" using ih by (blast intro: copy_of_mono)
      show ?thesis
      proof (intro exI conjI)
        show "h' ! c = OList (ys @ (y # zs))" using zs(1) by simp
        show "\<forall>z\<in>set (y # zs). \<exists>x'\<in>set (x # xs). copy_of mm' x' z"
          using y zs(2) by auto
      qed
    qed
    show ?thesis using k le new content by blast
  qed
qed

lemma copy_items_ok:
  assumes "dc_ok cp"
  shows "c < length h \<Longrightarrow> copy_items cp c xs mm h = (r, mm', h') \<Longrightarrow>
         keeps c h h' \<and> memo_le mm mm' \<and> memo_new mm mm' (length h) (length h')"
proof (induction xs arbitrary: mm h)
  case Nil
  then show ?case by (simp add: keeps_refl memo_le_refl memo_new_refl)
next
  case (Cons kx xs)
  obtain k x where kx: "kx = (k, x)" by (cases kx)
  obtain r1 mm1 h1 where cp1: "cp mm k h = (r1, mm1, h1)" by (cases "cp mm k h")
  note ok1 = dc_okD [OF assms cp1]
  have len1: "length h \<le> length h1" using ok1(1) by (rule keeps_length)
  show ?case
  proof (cases r1)
    case (Inl e)
    then have "r = Inl e" "mm' = mm1" "h' = h1" using Cons.prems(2) cp1 kx by simp_all
    then show ?thesis using ok1(1-3) Cons.prems(1) by (simp add: keeps_weaken)
  next
    case (Inr k')
    obtain r2 mm2 h2 where cp2: "cp mm1 x h1 = (r2, mm2, h2)" by (cases "cp mm1 x h1")
    note ok2 = dc_okD [OF assms cp2]
    have len2: "length h1 \<le> length h2" using ok2(1) by (rule keeps_length)
    have k02: "keeps c h h2"
      using keeps_trans [OF keeps_weaken [OF ok1(1)] keeps_weaken [OF ok2(1)]]
        Cons.prems(1) len1 by simp
    have le02: "memo_le mm mm2" using ok1(2) ok2(2) by (rule memo_le_trans)
    have new02: "memo_new mm mm2 (length h) (length h2)"
      by (rule memo_new_trans [OF ok1(3) ok2(3) len1 len2])
    show ?thesis
    proof (cases r2)
      case (Inl e)
      then have "r = Inl e" "mm' = mm2" "h' = h2"
        using Cons.prems(2) cp1 cp2 kx \<open>r1 = Inr k'\<close> by simp_all
      then show ?thesis using k02 le02 new02 by simp
    next
      case (Inr y)
      define h3 where
        "h3 = (case h2 ! c of ODict d \<Rightarrow> h2[c := ODict (AList.update k' y d)] | _ \<Rightarrow> h2)"
      have rest: "copy_items cp c xs mm2 h3 = (r, mm', h')"
        using Cons.prems(2) cp1 cp2 kx \<open>r1 = Inr k'\<close> Inr by (simp add: h3_def)
      have len3: "length h3 = length h2" by (simp add: h3_def split: obj.splits)
      have c3: "c < length h3" using len1 len2 len3 Cons.prems(1) by simp
      have k23: "keeps c h2 h3" by (auto simp: h3_def keeps_def split: obj.splits)
      note ih = Cons.IH [OF c3 rest]
      have k: "keeps c h h'"
        using keeps_trans [OF keeps_trans [OF k02 k23]] ih by simp
      have le: "memo_le mm mm'" using le02 ih by (blast intro: memo_le_trans)
      have new: "memo_new mm mm' (length h) (length h')"
      proof (rule memo_new_trans [OF new02])
        show "memo_new mm2 mm' (length h3) (length h')" using ih by simp
        show "length h \<le> length h3" using len1 len2 len3 by simp
        show "length h2 \<le> length h'" using ih len3 by (auto dest: keeps_length)
      qed
      show ?thesis using k le new by simp
    qed
  qed
qed

lemma memo_le_cons:
  assumes "map_of mm a = None" and "memo_le ((a, c) # mm) mm'"
  shows "memo_le mm mm'"
  unfolding memo_le_def
proof (intro allI impI)
  fix k t assume kt: "map_of mm k = Some t"
  then have "k \<noteq> a" using assms(1) by auto
  then have "map_of ((a, c) # mm) k = Some t" using kt by simp
  then show "map_of mm' k = Some t" using assms(2) unfolding memo_le_def by blast
qed

lemma memo_new_cons:
  assumes "memo_new ((a, c) # mm) mm' (Suc c) hi" and "c < hi"
  shows "memo_new mm mm' c hi"
  unfolding memo_new_def
proof (intro allI impI)
  fix k t assume "map_of mm' k = Some t"
  with assms(1) have "map_of ((a, c) # mm) k = Some t \<or> (Suc c \<le> t \<and> t < hi)"
    by (simp add: memo_new_def)
  then show "map_of mm k = Some t \<or> (c \<le> t \<and> t < hi)"
    using assms(2) by (auto split: if_splits)
qed

lemma keeps_snoc: "keeps (length h) (h @ [ob]) h' \<Longrightarrow> keeps (length h) h h'"
  by (auto simp: keeps_def nth_append)

lemma deepcopy_memo_ok: "dc_ok (deepcopy_memo limit)"
proof (induction limit)
  case 0
  show ?case
    unfolding dc_ok_def
  proof (intro allI impI)
    fix mm v h r mm' h'
    assume run: "deepcopy_memo 0 mm v h = (r, mm', h')"
    show "keeps (length h) h h' \<and> memo_le mm mm' \<and> memo_new mm mm' (length h) (length h') \<and>
          (\<forall>x. r = Inr x \<longrightarrow> copy_of mm' v x)"
      using run
      by (cases v)
         (auto simp: keeps_refl memo_le_refl memo_new_refl copy_of_def split: option.splits)
  qed
next
  case (Suc limit)
  note ih = Suc.IH
  show ?case
    unfolding dc_ok_def
  proof (intro allI impI)
    fix mm v h r mm' h'
    assume run: "deepcopy_memo (Suc limit) mm v h = (r, mm', h')"
    let ?goal = "keeps (length h) h h' \<and> memo_le mm mm' \<and>
          memo_new mm mm' (length h) (length h') \<and> (\<forall>x. r = Inr x \<longrightarrow> copy_of mm' v x)"
    show ?goal
    proof (cases v)
      case (VRef a)
      show ?thesis
      proof (cases "map_of mm a")
        case (Some c)
        then show ?thesis using run VRef
          by (auto simp: keeps_refl memo_le_refl memo_new_refl copy_of_def)
      next
        case None
        show ?thesis
        proof (cases "a < length h")
          case False
          then show ?thesis using run VRef None
            by (auto simp: keeps_refl memo_le_refl memo_new_refl)
        next
          case True
          let ?c = "length h"
          let ?mm = "(a, ?c) # mm"
          have fin: ?goal
            if k: "keeps ?c h h'" and le: "memo_le ?mm mm'"
              and new: "memo_new ?mm mm' (Suc ?c) (length h')" and lt: "?c < length h'"
              and res: "\<forall>x. r = Inr x \<longrightarrow> x = VRef ?c"
          proof -
            have "memo_le mm mm'" by (rule memo_le_cons [OF None le])
            moreover have "memo_new mm mm' ?c (length h')" by (rule memo_new_cons [OF new lt])
            moreover have "map_of mm' a = Some ?c" using le by (simp add: memo_le_def)
            ultimately show ?thesis using k res VRef by (simp add: copy_of_def)
          qed
          show ?thesis
          proof (cases "h ! a")
            case (OList l)
            obtain r1 mm1 h1 where ce:
              "copy_elems (deepcopy_memo limit) ?c l ?mm (h @ [OList []]) = (r1, mm1, h1)"
              by (cases "copy_elems (deepcopy_memo limit) ?c l ?mm (h @ [OList []])")
            from copy_elems_ok [OF ih _ ce]
            have k: "keeps ?c (h @ [OList []]) h1" and le: "memo_le ?mm mm1"
              and new: "memo_new ?mm mm1 (Suc ?c) (length h1)" by simp_all
            have r: "mm' = mm1" "h' = h1" "\<forall>x. r = Inr x \<longrightarrow> x = VRef ?c"
              using run VRef None True OList ce by (auto split: sum.splits)
            have lt: "?c < length h1" using k by (auto dest: keeps_length)
            show ?thesis
              using fin [unfolded r(1,2), OF keeps_snoc [OF k] le new lt] r by simp
          next
            case (ODict d)
            obtain r1 mm1 h1 where ce:
              "copy_items (deepcopy_memo limit) ?c d ?mm (h @ [ODict []]) = (r1, mm1, h1)"
              by (cases "copy_items (deepcopy_memo limit) ?c d ?mm (h @ [ODict []])")
            from copy_items_ok [OF ih _ ce]
            have k: "keeps ?c (h @ [ODict []]) h1" and le: "memo_le ?mm mm1"
              and new: "memo_new ?mm mm1 (Suc ?c) (length h1)" by simp_all
            have r: "mm' = mm1" "h' = h1" "\<forall>x. r = Inr x \<longrightarrow> x = VRef ?c"
              using run VRef None True ODict ce by (auto split: sum.splits)
            have lt: "?c < length h1" using k by (auto dest: keeps_length)
            show ?thesis
              using fin [unfolded r(1,2), OF keeps_snoc [OF k] le new lt] r by simp
          next
            case (OInst t nm)
            let ?h0 = "h @ [OInst VNone VNone]"
            obtain r1 mm1 h1 where c1: "deepcopy_memo limit ?mm t ?h0 = (r1, mm1, h1)"
              by (cases "deepcopy_memo limit ?mm t ?h0")
            note ok1 = dc_okD [OF ih c1]
            have k1: "keeps ?c ?h0 h1" using ok1(1) by (simp add: keeps_weaken)
            have lt1: "?c < length h1" using ok1(1) by (auto dest: keeps_length)
            have new1: "memo_new ?mm mm1 (Suc ?c) (length h1)" using ok1(3) by simp
            show ?thesis
            proof (cases r1)
              case (Inl e)
              then have r: "mm' = mm1" "h' = h1" "\<forall>x. r = Inr x \<longrightarrow> x = VRef ?c"
                using run VRef None True OInst c1 by auto
              show ?thesis
                using fin [unfolded r(1,2), OF keeps_snoc [OF k1] ok1(2) new1 lt1] r by simp
            next
              case (Inr t')
              obtain r2 mm2 h2 where c2: "deepcopy_memo limit mm1 nm h1 = (r2, mm2, h2)"
                by (cases "deepcopy_memo limit mm1 nm h1")
              note ok2 = dc_okD [OF ih c2]
              have len12: "length h1 \<le> length h2" using ok2(1) by (rule keeps_length)
              have k2: "keeps ?c ?h0 h2"
                using keeps_trans [OF k1 keeps_weaken [OF ok2(1)]] lt1 by simp
              have le2: "memo_le ?mm mm2" using ok1(2) ok2(2) by (rule memo_le_trans)
              have new2: "memo_new ?mm mm2 (Suc ?c) (length h2)"
                by (rule memo_new_trans [OF new1 ok2(3)]) (use lt1 len12 in auto)
              have lt2: "?c < length h2" using lt1 len12 by simp
              show ?thesis
              proof (cases r2)
                case (Inl e)
                then have r: "mm' = mm2" "h' = h2" "\<forall>x. r = Inr x \<longrightarrow> x = VRef ?c"
                  using run VRef None True OInst c1 c2 \<open>r1 = Inr t'\<close> by auto
                show ?thesis
                  using fin [unfolded r(1,2), OF keeps_snoc [OF k2] le2 new2 lt2] r by simp
              next
                case (Inr n')
                then have r: "mm' = mm2" "h' = h2[?c := OInst t' n']"
                  "\<forall>x. r = Inr x \<longrightarrow> x = VRef ?c"
                  using run VRef None True OInst c1 c2 \<open>r1 = Inr t'\<close> by auto
                have k3: "keeps ?c h (h2[?c := OInst t' n'])"
                  using keeps_trans [OF keeps_snoc [OF k2] keeps_update [of ?c ?c h2]] by simp
                have new3: "memo_new ?mm mm2 (Suc ?c) (length (h2[?c := OInst t' n']))"
                  using new2 by simp
                have lt3: "?c < length (h2[?c := OInst t' n'])" using lt2 by simp
                show ?thesis
                  using fin [unfolded r(1,2), OF k3 le2 new3 lt3] r by simp
              qed
            qed
          qed
        qed
      qed
    qed (use run in \<open>auto simp: keeps_refl memo_le_refl memo_new_refl copy_of_def\<close>)
  qed
qed

subsection \<open>Exact effect of the list operations\<close>

lemma list_append_exact:
  assumes "list_append v x h = Some (r, h')"
  shows "h' = h \<or>
         (\<exists>a l. v = VRef a \<and> a < length h \<and> h ! a = OList l \<and> h' = h[a := OList (l @ [x])])"
  using assms
  by (auto simp: list_append_def seq_def deref_def put_obj_def throw_def
      split: val.splits obj.splits if_splits)

lemma list_remove_exact:
  assumes "list_remove b v x h = Some (r, h')"
  shows "h' = h \<or>
         (\<exists>a l i. v = VRef a \<and> a < length h \<and> h ! a = OList l \<and>
                   h' = h[a := OList (take i l @ drop (i + 1) l)])"
  using assms
  by (auto simp: list_remove_def seq_def deref_def put_obj_def throw_def call_def
      split: val.splits obj.splits if_splits sum.splits option.splits)

lemma exact_rule:
  assumes "\<And>h r h'. m h = Some (r, h') \<Longrightarrow>
             h' = h \<or> (\<exists>a l l'. v = VRef a \<and> a < length h \<and> h ! a = OList l \<and>
                                 h' = h[a := OList l'] \<and> R l l')"
    and "\<And>h. I h \<Longrightarrow> J h"
    and "\<And>h a l l'. I h \<Longrightarrow> v = VRef a \<Longrightarrow> a < length h \<Longrightarrow> h ! a = OList l \<Longrightarrow> R l l' \<Longrightarrow>
           n \<le> a \<and> J (h[a := OList l'])"
  shows "triple n I m (\<lambda>_. J)"
proof (rule tripleI)
  fix h r h'
  assume I: "I h" and run: "m h = Some (r, h')"
  from assms(1) [OF run] show "keeps n h h' \<and> (\<forall>x. r = Inr x \<longrightarrow> J h')"
  proof
    assume "h' = h"
    then show ?thesis using assms(2) [OF I] by (simp add: keeps_refl)
  next
    assume "\<exists>a l l'. v = VRef a \<and> a < length h \<and> h ! a = OList l \<and>
                                 h' = h[a := OList l'] \<and> R l l'"
    then obtain a l l' where w: "v = VRef a" "a < length h" "h ! a = OList l"
      "h' = h[a := OList l']" "R l l'" by blast
    from assms(3) [OF I w(1,2,3,5)] show ?thesis using w(4) by (simp add: keeps_update)
  qed
qed

lemma append_rule:
  assumes "\<And>h. I h \<Longrightarrow> J h"
    and "\<And>h a l. I h \<Longrightarrow> v = VRef a \<Longrightarrow> a < length h \<Longrightarrow> h ! a = OList l \<Longrightarrow>
           n \<le> a \<and> J (h[a := OList (l @ [x])])"
  shows "triple n I (list_append v x) (\<lambda>_. J)"
proof (rule exact_rule [where R = "\<lambda>l l'. l' = l @ [x]" and v = v])
  fix h r h' assume "list_append v x h = Some (r, h')"
  from list_append_exact [OF this]
  show "h' = h \<or> (\<exists>a l l'. v = VRef a \<and> a < length h \<and> h ! a = OList l \<and>
                                 h' = h[a := OList l'] \<and> l' = l @ [x])" by blast
qed (use assms in auto)

lemma remove_rule:
  assumes "\<And>h. I h \<Longrightarrow> J h"
    and "\<And>h a l i. I h \<Longrightarrow> v = VRef a \<Longrightarrow> a < length h \<Longrightarrow> h ! a = OList l \<Longrightarrow>
           n \<le> a \<and> J (h[a := OList (take i l @ drop (i + 1) l)])"
  shows "triple n I (list_remove b v x) (\<lambda>_. J)"
proof (rule exact_rule [where R = "\<lambda>l l'. \<exists>i. l' = take i l @ drop (i + 1) l" and v = v])
  fix h r h' assume "list_remove b v x h = Some (r, h')"
  from list_remove_exact [OF this]
  show "h' = h \<or> (\<exists>a l l'. v = VRef a \<and> a < length h \<and> h ! a = OList l \<and>
                  h' = h[a := OList l'] \<and> (\<exists>i. l' = take i l @ drop (i + 1) l))" by blast
qed (use assms in auto)

subsection \<open>The copy of a list of groups\<close>

lemma grow_deepcopy: "grow_only (deepcopy limit v)"
  unfolding grow_only_def
proof (intro allI impI)
  fix h r h' assume "deepcopy limit v h = Some (r, h')"
  then obtain mm' where "deepcopy_memo limit [] v h = (r, mm', h')"
    by (auto simp: deepcopy_def split: prod.splits)
  from dc_okD(1) [OF deepcopy_memo_ok this] show "keeps (length h) h h'" .
qed

lemma deepcopy_list:
  assumes run: "deepcopy limit (VRef g) h = Some (Inr x, h')"
    and g: "g < length h" "h ! g = OList l" "VRef g \<notin> set l"
  shows "x = VRef (length h) \<and> length h < length h' \<and>
         (\<exists>zs. h' ! length h = OList zs \<and>
               (\<forall>t. VRef t \<in> set zs \<longrightarrow> length h < t \<and> t < length h'))"
proof -
  let ?c = "length h"
  from run obtain mm' where dm: "deepcopy_memo limit [] (VRef g) h = (Inr x, mm', h')"
    by (auto simp: deepcopy_def split: prod.splits)
  then obtain limit' where limit: "limit = Suc limit'"
    by (cases limit) auto
  obtain r1 mm1 h1 where ce:
    "copy_elems (deepcopy_memo limit') ?c l [(g, ?c)] (h @ [OList []]) = (r1, mm1, h1)"
    by (cases "copy_elems (deepcopy_memo limit') ?c l [(g, ?c)] (h @ [OList []])")
  from dm limit g ce have r: "r1 = Inr ()" "mm' = mm1" "h' = h1" "x = VRef ?c"
    by (auto split: sum.splits)
  from copy_elems_ok [OF deepcopy_memo_ok _ ce]
  have k: "keeps ?c (h @ [OList []]) h1"
    and new: "memo_new [(g, ?c)] mm1 (Suc ?c) (length h1)"
    and content: "\<And>ys u. (h @ [OList []]) ! ?c = OList ys \<Longrightarrow> r1 = Inr u \<Longrightarrow>
            \<exists>zs. h1 ! ?c = OList (ys @ zs) \<and> (\<forall>z\<in>set zs. \<exists>x\<in>set l. copy_of mm1 x z)"
    by simp_all
  have lt: "?c < length h1" using k by (auto dest: keeps_length)
  from content [of "[]" "()"] r(1) obtain zs where zs: "h1 ! ?c = OList zs"
    "\<forall>z\<in>set zs. \<exists>x\<in>set l. copy_of mm1 x z" by auto
  have "?c < t \<and> t < length h1" if "VRef t \<in> set zs" for t
  proof -
    from zs(2) that obtain y where y: "y \<in> set l" "copy_of mm1 y (VRef t)" by blast
    from y(2) obtain a where a: "y = VRef a" "map_of mm1 a = Some t"
      by (cases y) (auto simp: copy_of_def)
    have "a \<noteq> g" using y(1) a(1) g(3) by auto
    then have "map_of [(g, ?c)] a \<noteq> Some t" by simp
    moreover from new a(2)
    have "map_of [(g, ?c)] a = Some t \<or> (Suc ?c \<le> t \<and> t < length h1)"
      unfolding memo_new_def by blast
    ultimately show ?thesis by auto
  qed
  then show ?thesis using r lt zs(1) by auto
qed

subsection \<open>The groups are lists of the function\<close>

lemma groups_invI:
  assumes "g < length h" "h ! g = OList l" "\<And>p. VRef p \<in> set l \<Longrightarrow> g < p \<and> p < length h"
  shows "groups_inv g h"
  using assms unfolding groups_inv_def by blast

lemma copies_invI:
  assumes "a < length h" "h ! a = OList cs"
    "\<And>x. x \<in> set cs \<Longrightarrow> \<exists>c zs. x = VRef c \<and> a < c \<and> c < length h \<and> h ! c = OList zs \<and>
            (\<forall>q. VRef q \<in> set zs \<longrightarrow> a < q \<and> q < length h \<and> VRef q \<notin> set cs)"
  shows "copies_inv a h"
  using assms unfolding copies_inv_def by blast

text \<open>A write below the list of copies, or to a group of one of the copies, keeps the copies.\<close>

lemma copies_inv_write:
  assumes "copies_inv a h" and "p \<noteq> a" and "VRef p \<notin> set (vals (h ! a))"
  shows "copies_inv a (h[p := ob])"
proof -
  from assms(1) obtain cs where cs: "a < length h" "h ! a = OList cs"
    "\<And>x. x \<in> set cs \<Longrightarrow> \<exists>c zs. x = VRef c \<and> a < c \<and> c < length h \<and> h ! c = OList zs \<and>
            (\<forall>q. VRef q \<in> set zs \<longrightarrow> a < q \<and> q < length h \<and> VRef q \<notin> set cs)"
    unfolding copies_inv_def by blast
  show ?thesis
  proof (rule copies_invI)
    show "a < length (h[p := ob])" using cs(1) by simp
    show "h[p := ob] ! a = OList cs" using cs(2) assms(2) by simp
    fix x assume x: "x \<in> set cs"
    from cs(3) [OF x] obtain c zs where c: "x = VRef c" "a < c" "c < length h" "h ! c = OList zs"
      "\<forall>q. VRef q \<in> set zs \<longrightarrow> a < q \<and> q < length h \<and> VRef q \<notin> set cs" by blast
    have "c \<noteq> p" using x c(1) assms(3) cs(2) by auto
    then have "h[p := ob] ! c = OList zs" using c(4) by simp
    then show "\<exists>c zs. x = VRef c \<and> a < c \<and> c < length (h[p := ob]) \<and>
                 h[p := ob] ! c = OList zs \<and>
                 (\<forall>q. VRef q \<in> set zs \<longrightarrow> a < q \<and> q < length (h[p := ob]) \<and> VRef q \<notin> set cs)"
      using c by auto
  qed
qed

lemma copies_inv_below:
  assumes "copies_inv a h" and "p < a"
  shows "copies_inv a (h[p := ob])"
proof (rule copies_inv_write [OF assms(1)])
  show "p \<noteq> a" using assms(2) by simp
  from assms(1) obtain cs where cs: "h ! a = OList cs"
    "\<And>x. x \<in> set cs \<Longrightarrow> \<exists>c zs. x = VRef c \<and> a < c \<and> c < length h \<and> h ! c = OList zs \<and>
            (\<forall>q. VRef q \<in> set zs \<longrightarrow> a < q \<and> q < length h \<and> VRef q \<notin> set cs)"
    unfolding copies_inv_def by blast
  show "VRef p \<notin> set (vals (h ! a))"
  proof
    assume "VRef p \<in> set (vals (h ! a))"
    then have "VRef p \<in> set cs" using cs(1) by simp
    from cs(2) [OF this] have "a < p" by auto
    then show False using assms(2) by simp
  qed
qed

text \<open>A write to a group keeps the list of groups.\<close>

lemma groups_inv_write:
  assumes "groups_inv g h" and "p \<noteq> g"
  shows "groups_inv g (h[p := ob])"
  using assms unfolding groups_inv_def by auto

lemma groups_inv_alloc: "groups_inv g h \<Longrightarrow> groups_inv g (h @ [ob])"
  unfolding groups_inv_def by (fastforce simp: nth_append less_Suc_eq)

subsection \<open>The group builder\<close>

lemma groups_inv_append_val:
  assumes "groups_inv g h" and "h ! g = OList l"
    and "\<And>q. x = VRef q \<Longrightarrow> g < q \<and> q < length h"
  shows "groups_inv g (h[g := OList (l @ [x])])"
proof (rule groups_invI)
  from assms(1) have g: "g < length h"
    and l: "\<And>p. VRef p \<in> set l \<Longrightarrow> g < p \<and> p < length h"
    using assms(2) unfolding groups_inv_def by auto
  show "g < length (h[g := OList (l @ [x])])" using g by simp
  show "h[g := OList (l @ [x])] ! g = OList (l @ [x])" using g by simp
  fix p assume "VRef p \<in> set (l @ [x])"
  then have "VRef p \<in> set l \<or> x = VRef p" by auto
  then show "g < p \<and> p < length (h[g := OList (l @ [x])])"
    using l assms(3) by auto
qed

lemma first_groups_inv:
  assumes "n \<le> g"
  shows "triple n (groups_inv g) (first_groups_s (VRef g) s x) (\<lambda>_. groups_inv g)"
  unfolding first_groups_s_def
proof (rule new_then, rule append_rule)
  fix a h'
  assume pre: "\<exists>h. groups_inv g h \<and> h' = h @ [OList [x]] \<and> a = length h"
  then obtain h where h: "groups_inv g h" "h' = h @ [OList [x]]" "a = length h" by blast
  have gi: "groups_inv g h'" using groups_inv_alloc [OF h(1)] h(2) by simp
  then show "groups_inv g h'" .
  fix b l assume b: "VRef g = VRef b" "h' ! b = OList l"
  have "g < length h" using h(1) by (simp add: groups_inv_def)
  then have "groups_inv g (h'[g := OList (l @ [VRef a])])"
    using b h(2,3) by (intro groups_inv_append_val [OF gi]) auto
  then show "n \<le> b \<and> groups_inv g (h'[b := OList (l @ [VRef a])])"
    using b(1) assms by simp
qed

lemma elem_of_groups:
  assumes "groups_inv g h" and "elem_of h (VRef g) (VRef a)"
  shows "g < a \<and> a < length h"
  using assms unfolding groups_inv_def elem_of_def by auto

lemma extend_first_groups:
  assumes "n \<le> g"
  shows "triple n (\<lambda>h. groups_inv g h \<and> elem_of h (VRef g) grp) (extend_first_s aen s grp)
           (\<lambda>_. groups_inv g)"
  unfolding extend_first_s_def
proof (rule read_keep [OF pure_getitem], rule append_rule)
  fix x h a l
  assume pre: "(groups_inv g h \<and> elem_of h (VRef g) grp) \<and>
               getitem aen (VInt 0) h = Some (Inr x, h)"
  then show "groups_inv g h" by simp
  assume a: "grp = VRef a"
  from pre a have "g < a" using elem_of_groups by blast
  then show "n \<le> a \<and> groups_inv g (h[a := OList (l @ [x])])"
    using pre assms by (simp add: groups_inv_write)
qed

lemma before_inv_write:
  assumes "before_inv g a h" and "g < p" and "p < a"
  shows "before_inv g a (h[p := ob])"
  using assms unfolding before_inv_def split_inv_def
  by (simp add: groups_inv_write copies_inv_below)

lemma extend_first_before:
  assumes "n \<le> g"
  shows "triple n (\<lambda>h. before_inv g a h \<and> elem_of h (VRef g) grp) (extend_first_s aen s grp)
           (\<lambda>_. before_inv g a)"
  unfolding extend_first_s_def
proof (rule read_keep [OF pure_getitem], rule append_rule)
  fix x h p l
  assume pre: "(before_inv g a h \<and> elem_of h (VRef g) grp) \<and>
               getitem aen (VInt 0) h = Some (Inr x, h)"
  then show "before_inv g a h" by simp
  assume p: "grp = VRef p"
  from pre have gi: "groups_inv g h" by (simp add: before_inv_def split_inv_def)
  from pre p gi have gp: "g < p" "p < length h" using elem_of_groups by blast+
  from gi obtain l' where l': "h ! g = OList l'" by (auto simp: groups_inv_def)
  have "VRef p \<in> set (vals (h ! g))"
    using pre p gi l' by (auto simp: elem_of_def groups_inv_def)
  then have "p < a" using pre by (simp add: before_inv_def)
  then show "n \<le> p \<and> before_inv g a (h[p := OList (l @ [x])])"
    using pre gp assms by (simp add: before_inv_write)
qed

lemma stable_groups_inv: "stable (groups_inv g)"
  unfolding stable_def groups_inv_def keeps_def
  by (auto intro: less_le_trans)

lemma copies_inv_keeps:
  assumes "copies_inv a h" and "keeps (length h) h h'"
  shows "copies_inv a h'"
proof -
  from assms(1) obtain cs where cs: "a < length h" "h ! a = OList cs"
    "\<And>x. x \<in> set cs \<Longrightarrow> \<exists>c zs. x = VRef c \<and> a < c \<and> c < length h \<and> h ! c = OList zs \<and>
            (\<forall>q. VRef q \<in> set zs \<longrightarrow> a < q \<and> q < length h \<and> VRef q \<notin> set cs)"
    unfolding copies_inv_def by blast
  have len: "length h \<le> length h'" and same: "\<And>b. b < length h \<Longrightarrow> h' ! b = h ! b"
    using assms(2) by (simp_all add: keeps_def)
  show ?thesis
  proof (rule copies_invI)
    show "a < length h'" using cs(1) len by simp
    show "h' ! a = OList cs" using cs(1,2) same by simp
    fix x assume "x \<in> set cs"
    from cs(3) [OF this] obtain c zs where c: "x = VRef c" "a < c" "c < length h"
      "h ! c = OList zs"
      "\<forall>q. VRef q \<in> set zs \<longrightarrow> a < q \<and> q < length h \<and> VRef q \<notin> set cs" by blast
    have "h' ! c = OList zs" using c(3,4) same by simp
    then show "\<exists>c zs. x = VRef c \<and> a < c \<and> c < length h' \<and> h' ! c = OList zs \<and>
                 (\<forall>q. VRef q \<in> set zs \<longrightarrow> a < q \<and> q < length h' \<and> VRef q \<notin> set cs)"
      using c len by (auto intro: less_le_trans)
  qed
qed

lemma before_inv_keeps:
  assumes "before_inv g a h" and "keeps (length h) h h'"
  shows "before_inv g a h'"
proof -
  from assms(1) have gi: "groups_inv g h" and ga: "g < a" and ci: "copies_inv a h"
    and below: "\<forall>p. VRef p \<in> set (vals (h ! g)) \<longrightarrow> p < a"
    by (simp_all add: before_inv_def split_inv_def)
  have "groups_inv g h'" using stable_groups_inv gi assms(2) unfolding stable_def by blast
  moreover have "copies_inv a h'" by (rule copies_inv_keeps [OF ci assms(2)])
  moreover have "h' ! g = h ! g" using gi assms(2) by (simp add: groups_inv_def keeps_def)
  ultimately show ?thesis using ga below by (simp add: before_inv_def split_inv_def)
qed

text \<open>The copy is entered in the list of copies.\<close>

lemma copies_inv_append:
  assumes ci: "copies_inv a h" and c: "a < c" "c < length h" "h ! c = OList zs"
    and fresh: "\<And>x. x \<in> set (vals (h ! a)) \<Longrightarrow> \<exists>c'. x = VRef c' \<and> c' < c"
    and zs: "\<And>q. VRef q \<in> set zs \<Longrightarrow> c < q \<and> q < length h"
    and old: "\<And>c' q. VRef c' \<in> set (vals (h ! a)) \<Longrightarrow> VRef q \<in> set (vals (h ! c')) \<Longrightarrow> q < c"
    and cs: "h ! a = OList cs"
  shows "copies_inv a (h[a := OList (cs @ [VRef c])])"
proof -
  let ?h = "h[a := OList (cs @ [VRef c])]"
  from ci cs have a: "a < length h"
    and each: "\<And>x. x \<in> set cs \<Longrightarrow> \<exists>c' zs'. x = VRef c' \<and> a < c' \<and> c' < length h \<and>
            h ! c' = OList zs' \<and>
            (\<forall>q. VRef q \<in> set zs' \<longrightarrow> a < q \<and> q < length h \<and> VRef q \<notin> set cs)"
    unfolding copies_inv_def by auto
  show ?thesis
  proof (rule copies_invI)
    show "a < length ?h" using a by simp
    show "?h ! a = OList (cs @ [VRef c])" using a by simp
    fix x assume "x \<in> set (cs @ [VRef c])"
    then consider "x \<in> set cs" | "x = VRef c" by auto
    then show "\<exists>c' zs'. x = VRef c' \<and> a < c' \<and> c' < length ?h \<and> ?h ! c' = OList zs' \<and>
                 (\<forall>q. VRef q \<in> set zs' \<longrightarrow>
                    a < q \<and> q < length ?h \<and> VRef q \<notin> set (cs @ [VRef c]))"
    proof cases
      case 1
      from each [OF 1] obtain c' zs' where c': "x = VRef c'" "a < c'" "c' < length h"
        "h ! c' = OList zs'"
        "\<forall>q. VRef q \<in> set zs' \<longrightarrow> a < q \<and> q < length h \<and> VRef q \<notin> set cs" by blast
      have in_a: "VRef c' \<in> set (vals (h ! a))" using 1 c'(1) cs by simp
      have "q \<noteq> c" if "VRef q \<in> set zs'" for q
        using old [OF in_a, of q] that c'(4) by auto
      then show ?thesis using c' by auto
    next
      case 2
      have "VRef q \<notin> set cs" if "VRef q \<in> set zs" for q
      proof
        assume "VRef q \<in> set cs"
        then have "VRef q \<in> set (vals (h ! a))" using cs by simp
        from fresh [OF this] have "q < c" by auto
        then show False using zs [OF that] by simp
      qed
      moreover have "?h ! c = OList zs" using c by simp
      ultimately show ?thesis using 2 c zs by (auto intro: less_trans)
    qed
  qed
qed

lemma deepcopy_copied:
  "triple n (before_inv g a) (deepcopy limit (VRef g)) (copied g a)"
proof (rule tripleI)
  fix h r h'
  assume I: "before_inv g a h" and n: "n \<le> length h"
    and run: "deepcopy limit (VRef g) h = Some (r, h')"
  have k: "keeps (length h) h h'" using grow_deepcopy run by (simp add: grow_only_def)
  have "copied g a x h'" if r: "r = Inr x" for x
  proof -
    from I obtain l where l: "g < length h" "h ! g = OList l"
      "\<And>p. VRef p \<in> set l \<Longrightarrow> g < p \<and> p < length h"
      by (auto simp: before_inv_def split_inv_def groups_inv_def)
    have "VRef g \<notin> set l" using l(3) by auto
    from deepcopy_list [OF run [unfolded r] l(1,2) this] show ?thesis
      unfolding copied_def using I k by blast
  qed
  then show "keeps n h h' \<and> (\<forall>x. r = Inr x \<longrightarrow> copied g a x h')"
    using keeps_weaken [OF k n] by simp
qed

lemma enter_copied:
  assumes "n \<le> g"
  shows "triple n (copied g a c) (list_append (VRef a) c) (\<lambda>_. before_inv g a)"
proof (rule append_rule)
  fix h1 assume "copied g a c h1"
  then show "before_inv g a h1" unfolding copied_def by (blast intro: before_inv_keeps)
next
  fix h1 b cs
  assume cp: "copied g a c h1" and b: "VRef a = VRef b" "h1 ! b = OList cs"
  from cp obtain h zs where h: "before_inv g a h" "keeps (length h) h h1" "c = VRef (length h)"
    "length h < length h1" "h1 ! length h = OList zs"
    "\<And>t. VRef t \<in> set zs \<Longrightarrow> length h < t \<and> t < length h1"
    unfolding copied_def by blast
  let ?c = "length h"
  note bi = before_inv_keeps [OF h(1,2)]
  then have gi: "groups_inv g h1" and ga: "g < a" and ci: "copies_inv a h1"
    and below: "\<forall>p. VRef p \<in> set (vals (h1 ! g)) \<longrightarrow> p < a"
    by (simp_all add: before_inv_def split_inv_def)
  from h(1) obtain cs0 where cs0: "a < length h" "h ! a = OList cs0"
    "\<And>x. x \<in> set cs0 \<Longrightarrow> \<exists>c zs. x = VRef c \<and> a < c \<and> c < length h \<and> h ! c = OList zs \<and>
            (\<forall>q. VRef q \<in> set zs \<longrightarrow> a < q \<and> q < length h \<and> VRef q \<notin> set cs0)"
    unfolding before_inv_def split_inv_def copies_inv_def by blast
  have same: "\<And>b. b < length h \<Longrightarrow> h1 ! b = h ! b" using h(2) by (simp add: keeps_def)
  have cs: "cs = cs0" using b cs0(1,2) same by simp
  have "copies_inv a (h1[a := OList (cs @ [VRef ?c])])"
  proof (rule copies_inv_append [OF ci _ h(4,5)])
    show "a < ?c" by (rule cs0(1))
    show "h1 ! a = OList cs" using b by simp
    show "\<exists>c'. x = VRef c' \<and> c' < ?c" if "x \<in> set (vals (h1 ! a))" for x
      using that b cs cs0(3) [of x] by auto
    show "?c < q \<and> q < length h1" if "VRef q \<in> set zs" for q
      using h(6) [OF that] .
    show "q < ?c" if c': "VRef c' \<in> set (vals (h1 ! a))" and q: "VRef q \<in> set (vals (h1 ! c'))"
      for c' q
    proof -
      from c' have in0: "VRef c' \<in> set cs0" using b cs by simp
      from cs0(3) [OF in0] obtain zs' where z: "c' < length h" "h ! c' = OList zs'"
        "\<forall>q. VRef q \<in> set zs' \<longrightarrow> a < q \<and> q < length h \<and> VRef q \<notin> set cs0" by auto
      have "h1 ! c' = OList zs'" using z(1,2) same by simp
      then show ?thesis using q z(3) by auto
    qed
  qed
  moreover have "groups_inv g (h1[a := OList (cs @ [VRef ?c])])"
    using gi ga by (simp add: groups_inv_write)
  moreover have "h1[a := OList (cs @ [VRef ?c])] ! g = h1 ! g" using ga by simp
  ultimately have "before_inv g a (h1[a := OList (cs @ [VRef ?c])])"
    using ga below by (simp add: before_inv_def split_inv_def)
  then show "n \<le> b \<and> before_inv g a (h1[b := OList (cs @ [c])])"
    using b(1) h(3) assms ga by simp
qed

lemma add_copies_before:
  assumes "n \<le> g"
  shows "triple n (before_inv g a) (add_copies_s limit (VRef g) (VRef a) s i)
           (\<lambda>_. before_inv g a)"
  unfolding add_copies_s_def
  by (rule triple_seq [OF deepcopy_copied enter_copied [OF assms]])

lemma elem_of_copy:
  assumes "copy_inv g a c h" and "elem_of h c grp"
  shows "group_of_copy g a c grp h"
proof -
  from assms(1) obtain cs where cs: "h ! a = OList cs" "c \<in> set cs"
    "\<And>x. x \<in> set cs \<Longrightarrow> \<exists>c zs. x = VRef c \<and> a < c \<and> c < length h \<and> h ! c = OList zs \<and>
            (\<forall>q. VRef q \<in> set zs \<longrightarrow> a < q \<and> q < length h \<and> VRef q \<notin> set cs)"
    unfolding copy_inv_def split_inv_def copies_inv_def by auto
  from cs(3) [OF cs(2)] obtain c' zs where c': "c = VRef c'" "c' < length h" "h ! c' = OList zs"
    "\<forall>q. VRef q \<in> set zs \<longrightarrow> a < q \<and> q < length h \<and> VRef q \<notin> set cs" by blast
  have "grp \<in> set zs" using assms(2) c'(1,2,3) by (simp add: elem_of_def)
  then show ?thesis using assms(1) c'(4) cs(1) by (auto simp: group_of_copy_def)
qed

lemma copy_inv_write:
  assumes "copy_inv g a c h" and "a < q" and "VRef q \<notin> set (vals (h ! a))"
  shows "copy_inv g a c (h[q := ob])"
proof -
  from assms(1) have gi: "groups_inv g h" and ga: "g < a" and ci: "copies_inv a h"
    and c: "c \<in> set (vals (h ! a))"
    by (simp_all add: copy_inv_def split_inv_def)
  have "groups_inv g (h[q := ob])" using gi ga assms(2) by (simp add: groups_inv_write)
  moreover have "copies_inv a (h[q := ob])"
    using ci assms(2,3) by (simp add: copies_inv_write)
  ultimately show ?thesis using ga c assms(2) by (simp add: copy_inv_def split_inv_def)
qed

lemma extend_copy_inv:
  assumes "n \<le> g"
  shows "triple n (\<lambda>h. copy_inv g a c h \<and> elem_of h c grp)
           (extend_copy_s (VRef g) aen k s grp) (\<lambda>_. copy_inv g a c)"
  unfolding extend_copy_s_def
proof (rule read_keep [OF pure_getitem],
    rule triple_seq [where R = "\<lambda>_. group_of_copy g a c grp"])
  fix x
  show "triple n (\<lambda>h. (copy_inv g a c h \<and> elem_of h c grp) \<and>
                 getitem aen (VInt (int k + 1)) h = Some (Inr x, h))
          (list_append grp x) (\<lambda>_. group_of_copy g a c grp)"
  proof (rule append_rule)
    fix h
    assume pre: "(copy_inv g a c h \<and> elem_of h c grp) \<and>
                 getitem aen (VInt (int k + 1)) h = Some (Inr x, h)"
    then have gc: "group_of_copy g a c grp h" by (simp add: elem_of_copy)
    then show "group_of_copy g a c grp h" .
    fix q l assume q: "grp = VRef q"
    from gc q have f: "a < q" "q < length h" "VRef q \<notin> set (vals (h ! a))"
      and ci: "copy_inv g a c h" by (simp_all add: group_of_copy_def)
    have "copy_inv g a c (h[q := OList (l @ [x])])" by (rule copy_inv_write [OF ci f(1,3)])
    moreover have "h[q := OList (l @ [x])] ! a = h ! a" using f(1) by simp
    moreover have "g < a" using ci by (simp add: copy_inv_def split_inv_def)
    ultimately show "n \<le> q \<and> group_of_copy g a c grp (h[q := OList (l @ [x])])"
      using q f assms by (simp add: group_of_copy_def)
  qed
next
  show "triple n (group_of_copy g a c grp) (list_append (VRef g) grp) (\<lambda>_. copy_inv g a c)"
  proof (rule append_rule)
    fix h assume gc: "group_of_copy g a c grp h"
    then show "copy_inv g a c h" by (simp add: group_of_copy_def)
    fix b l assume b: "VRef g = VRef b" "h ! b = OList l"
    from gc have gi: "groups_inv g h" and ga: "g < a" and ci: "copies_inv a h"
      and c: "c \<in> set (vals (h ! a))"
      and q: "\<And>q. grp = VRef q \<Longrightarrow> a < q \<and> q < length h"
      by (simp_all add: group_of_copy_def copy_inv_def split_inv_def)
    have "groups_inv g (h[g := OList (l @ [grp])])"
    proof (rule groups_inv_append_val [OF gi])
      show "h ! g = OList l" using b by simp
      show "g < q' \<and> q' < length h" if "grp = VRef q'" for q'
        using q [OF that] ga by simp
    qed
    moreover have "copies_inv a (h[g := OList (l @ [grp])])"
      by (rule copies_inv_below [OF ci ga])
    moreover have "h[g := OList (l @ [grp])] ! a = h ! a" using ga by simp
    ultimately show "n \<le> b \<and> copy_inv g a c (h[b := OList (l @ [grp])])"
      using b(1) ga c assms by (simp add: copy_inv_def split_inv_def)
  qed
qed

lemma extend_copies_inv:
  assumes "n \<le> g"
  shows "triple n (split_inv g a) (extend_copies_s fuel (VRef g) (VRef a) aen s k)
           (\<lambda>_. split_inv g a)"
  unfolding extend_copies_s_def
proof (rule read_keep [OF pure_getitem])
  fix c
  show "triple n (\<lambda>h. split_inv g a h \<and>
                  getitem (VRef a) (VInt (int k)) h = Some (Inr c, h))
          (for_each fuel c (extend_copy_s (VRef g) aen k) ()) (\<lambda>_. split_inv g a)"
  proof (rule triple_pre [OF triple_post [OF for_each_inv [where I = "copy_inv g a c"]]])
    show "triple n (\<lambda>h. copy_inv g a c h \<and> elem_of h c x)
            (extend_copy_s (VRef g) aen k s' x) (\<lambda>_. copy_inv g a c)" for s' x
      by (rule extend_copy_inv [OF assms])
    show "split_inv g a h" if "copy_inv g a c h" for h
      using that by (simp add: copy_inv_def)
    show "copy_inv g a c h"
      if "split_inv g a h \<and> getitem (VRef a) (VInt (int k)) h = Some (Inr c, h)" for h
      using that by (auto simp: copy_inv_def dest: getitem_in)
  qed
qed

lemma split_branch:
  assumes "n \<le> g"
  shows "triple n (\<lambda>h'. \<exists>h. groups_inv g h \<and> h' = h @ [OList []] \<and> a = length h)
           (seq (for_range is1 (add_copies_s limit (VRef g) (VRef a)) ()) (\<lambda>_.
            seq (for_each fuel (VRef g) (extend_first_s aen) ()) (\<lambda>_.
              for_range is2 (extend_copies_s fuel (VRef g) (VRef a) aen) ())))
           (\<lambda>_. groups_inv g)"
proof (rule then_inv [where I = "before_inv g a"])
  show "triple n (\<lambda>h'. \<exists>h. groups_inv g h \<and> h' = h @ [OList []] \<and> a = length h)
          (for_range is1 (add_copies_s limit (VRef g) (VRef a)) ()) (\<lambda>_. before_inv g a)"
  proof (rule triple_pre [OF for_range_inv [where I = "before_inv g a"]])
    show "triple n (before_inv g a) (add_copies_s limit (VRef g) (VRef a) s i)
            (\<lambda>_. before_inv g a)" for s i
      by (rule add_copies_before [OF assms])
    fix h' assume "\<exists>h. groups_inv g h \<and> h' = h @ [OList []] \<and> a = length h"
    then obtain h where h: "groups_inv g h" "h' = h @ [OList []]" "a = length h" by blast
    from h(1) obtain l where l: "g < length h" "h ! g = OList l"
      "\<And>p. VRef p \<in> set l \<Longrightarrow> g < p \<and> p < length h"
      unfolding groups_inv_def by blast
    have "copies_inv a h'"
      by (rule copies_invI [where cs = "[]"]) (use h in auto)
    moreover have "h' ! g = OList l" using l(1,2) h(2) by (simp add: nth_append)
    ultimately show "before_inv g a h'"
      using groups_inv_alloc [OF h(1)] h l by (auto simp: before_inv_def split_inv_def)
  qed
next
  show "triple n (before_inv g a)
          (seq (for_each fuel (VRef g) (extend_first_s aen) ()) (\<lambda>_.
              for_range is2 (extend_copies_s fuel (VRef g) (VRef a) aen) ()))
          (\<lambda>_. groups_inv g)" for u :: unit
  proof (rule then_inv [where I = "split_inv g a"])
    show "triple n (before_inv g a) (for_each fuel (VRef g) (extend_first_s aen) ())
            (\<lambda>_. split_inv g a)"
      by (rule triple_post [OF for_each_inv [where I = "before_inv g a"]])
         (rule extend_first_before [OF assms], simp add: before_inv_def)
    show "triple n (split_inv g a)
            (for_range is2 (extend_copies_s fuel (VRef g) (VRef a) aen) ())
            (\<lambda>_. groups_inv g)" for u :: unit
      by (rule triple_post [OF for_range_inv [where I = "split_inv g a"]])
         (rule extend_copies_inv [OF assms], simp add: split_inv_def)
  qed
qed

lemma group_atom_inv:
  assumes "n \<le> g"
  shows "triple n (groups_inv g) (group_atom_s limit fuel (VRef g) names i)
           (\<lambda>_. groups_inv g)"
  unfolding group_atom_s_def
  apply (rule inv_seq, rule inv_pure, rule pure_rules)+
  apply (rule inv_if)
   apply (rule for_each_inv)
   apply (rule triple_pre [OF first_groups_inv [OF assms]], simp)
  apply (rule inv_seq, rule inv_pure, rule pure_rules)
  apply (rule inv_if)
   apply (rule new_then)
   apply (rule split_branch [OF assms])
  apply (rule for_each_inv)
  apply (rule extend_first_groups [OF assms])
  done

lemma pure_count_prev: "pure_op (count_prev_s b pc alias_entry)"
  unfolding count_prev_s_def
  by (intro pure_seq pure_rules)

lemma remove_prev_inv:
  assumes "n \<le> g"
  shows "triple n (groups_inv g) (remove_prev_s b fuel (VRef g) idb s grp)
           (\<lambda>_. groups_inv g)"
  unfolding remove_prev_s_def
proof (rule inv_seq)
  show "triple n (groups_inv g) (for_each fuel grp (count_prev_s b) 0) (\<lambda>_. groups_inv g)"
    by (rule for_each_inv) (rule triple_pre [OF inv_pure [OF pure_count_prev]], simp)
  fix pc
  show "triple n (groups_inv g)
          (seq (call (\<lambda>h. py_eq b h (VInt pc) idb)) (\<lambda>all_prev.
             if all_prev then list_remove b (VRef g) grp else skip))
          (\<lambda>_. groups_inv g)"
  proof (rule inv_seq [OF inv_pure [OF pure_call]], rule inv_if)
    show "triple n (groups_inv g) (list_remove b (VRef g) grp) (\<lambda>_. groups_inv g)"
    proof (rule remove_rule)
      fix h a l i
      assume gi: "groups_inv g h" and a: "VRef g = VRef a" "h ! a = OList l"
      have "set (take i l @ drop (i + 1) l) \<subseteq> set l"
        using set_take_subset [of i l] set_drop_subset [of "i + 1" l] by auto
      then have "groups_inv g (h[g := OList (take i l @ drop (i + 1) l)])"
        using gi a unfolding groups_inv_def by auto
      then show "n \<le> a \<and> groups_inv g (h[a := OList (take i l @ drop (i + 1) l)])"
        using a(1) assms by simp
    qed
  qed (rule inv_skip)
qed

lemma build_recursive_atom_alias_groups_triple:
  "triple n (\<lambda>h. True)
     (build_recursive_atom_alias_groups_s b limit fuel body_atoms atom_aliases_map)
     (\<lambda>_ _. True)"
  unfolding build_recursive_atom_alias_groups_s_def
  apply (rule read_keep, rule pure_rules)+
  apply (rule new_then)
  apply (rule then_inv [where I = "groups_inv g" for g])
   apply (rule triple_pre [OF for_range_inv [where I = "groups_inv g" for g]])
    apply (rule group_atom_inv, assumption)
   apply (auto simp: groups_inv_def nth_append)[1]
  apply (rule then_inv [where I = "groups_inv g" for g])
   apply (rule for_each_inv)
   apply (rule triple_pre [OF remove_prev_inv], assumption, simp)
  apply (rule triple_ret, simp)
  done

lemma keeps_take:
  assumes "keeps (length h) h h'"
  shows "take (length h) h' = h"
proof (rule nth_equalityI)
  show "length (take (length h) h') = length h" using assms by (simp add: keeps_def)
  fix i assume "i < length (take (length h) h')"
  then show "take (length h) h' ! i = h ! i" using assms by (simp add: keeps_def)
qed

lemma unchanged_by_triple:
  assumes "\<And>n. triple n (\<lambda>h. True) m (\<lambda>_ _. True)"
  shows "unchanged_by m"
  unfolding unchanged_by_def
  by (blast intro: keeps_take triple_frame [OF assms])

lemma unchanged_by_grow: "grow_only m \<Longrightarrow> unchanged_by m"
  unfolding unchanged_by_def grow_only_def by (blast intro: keeps_take)

lemma kept_onI: "unchanged_by m \<Longrightarrow> returns_on m h \<Longrightarrow> kept_on m h"
  by (auto simp: unchanged_by_def returns_on_def kept_on_def split: option.splits sum.splits)

lemma returns_indexer:
  "returns_on (extract_variable_arg_to_atom_map_s example_builtins (VRef 5)) rule_store"
  by code_simp

lemma returns_resolver: "returns_on (search_s (VRef 7) (VStr ''y'')) rule_store"
  by code_simp

lemma returns_selection:
  "returns_on (extract_selection_map_s example_builtins (VRef 3) (VRef 7)) rule_store"
  by code_simp

lemma returns_join: "returns_on (extract_join_map_s 10 (VRef 7)) rule_store"
  by code_simp

lemma returns_comparison:
  "returns_on (extract_comparison_map_s example_builtins 10 (VRef 15) (VRef 7)) rule_store"
  by code_simp

lemma returns_constant:
  "returns_on (extract_constant_constraint_map_s example_builtins (VRef 5)) rule_store"
  by code_simp

lemma returns_negation:
  "returns_on (extract_negation_map_s example_builtins 10 (VRef 5) (VRef 7)) rule_store"
  by code_simp

lemma returns_aliases:
  "returns_on (build_atom_aliases_s example_builtins 10 (VRef 5)) rule_store"
  by code_simp

lemma returns_negation_aliases:
  "returns_on (build_negation_atom_aliases_s example_builtins 10 (VRef 5)) rule_store"
  by code_simp

lemma returns_recursive_aliases:
  "returns_on (build_recursive_atom_aliases_s example_builtins 10 (VRef 5) (VRef 6) (VInt 1))
     rule_store"
  by code_simp

lemma returns_groups:
  "returns_on (build_recursive_atom_alias_groups_s example_builtins 10 10 (VRef 5) (VRef 22))
     rule_store"
  by code_simp

section \<open>Lemmas about \<open>float\<close>\<close>

subsection \<open>Binary digits and rounding\<close>












subsection \<open>The rounding to a double\<close>







subsection \<open>\<open>float\<close> on a literal\<close>











subsection \<open>The comparison maps of the examples\<close>



section \<open>The claims\<close>

text \<open>
  Claim C1, as stated, fails when no body atom is in the eval set: for the body
  \<open>Edge(x, y)\<close> and an empty eval set, \<open>idb_num\<close> is 0, the only group has no \<open>prev\<close>
  alias, so its count equals \<open>idb_num\<close> and line 430 removes it. No group is returned,
  not one.
\<close>

theorem recursive_groups_no_idb_counterexample:
  "idb_num (build_recursive_atom_aliases edge_xy (Map.empty :: string \<Rightarrow> unit option) 1) = 0 \<and>
   edge_xy \<noteq> [] \<and>
   build_recursive_atom_alias_groups edge_xy
     (build_recursive_atom_aliases edge_xy (Map.empty :: string \<Rightarrow> unit option) 1) = Inr []"
  by (simp add: edge_xy_def build_recursive_atom_aliases_def
      build_recursive_atom_alias_groups_def extend_groups_def prev_count_def
      remove_all_prev_groups.simps mk_atom_def)

text \<open>
  Claim C1, amended: for every body, eval set and iteration number the two builders
  return, without an error, the full product of the alias choices (in atom order,
  \<open>2 ^ idb_num\<close> groups) without its first group, that is \<open>2 ^ idb_num - 1\<close> groups; the
  removed first group takes the first alias of every atom, which is the \<open>prev\<close> alias of
  every recursively evaluated atom; \<open>idb_num\<close> is the number of body atoms whose relation
  is in the eval set. The relations need not be distinct, and with \<open>idb_num = 0\<close> no
  group is left.
\<close>

theorem recursive_groups_count:
  "build_recursive_atom_alias_groups body (build_recursive_atom_aliases body ev iter_num) =
     Inr (tl (choice_product
                (body_atom_eval_names (build_recursive_atom_aliases body ev iter_num)))) \<and>
   length (tl (choice_product
                 (body_atom_eval_names (build_recursive_atom_aliases body ev iter_num)))) =
     2 ^ nat (idb_num (build_recursive_atom_aliases body ev iter_num)) - 1 \<and>
   length (choice_product
             (body_atom_eval_names (build_recursive_atom_aliases body ev iter_num))) =
     2 ^ nat (idb_num (build_recursive_atom_aliases body ev iter_num)) \<and>
   hd (choice_product
         (body_atom_eval_names (build_recursive_atom_aliases body ev iter_num))) =
     map hd (body_atom_eval_names (build_recursive_atom_aliases body ev iter_num)) \<and>
   idb_num (build_recursive_atom_aliases body ev iter_num) =
     int (length (filter (\<lambda>a. ev (name a) \<noteq> None) body))"
proof -
  note inv = choice_product_inv [of ev iter_num body]
  have "length (tl (choice_product (map (atom_alias_choices ev iter_num) body))) =
          2 ^ idb_count ev body - 1"
    using inv by simp
  moreover have "hd (choice_product (map (atom_alias_choices ev iter_num) body)) =
                   map hd (map (atom_alias_choices ev iter_num) body)"
    using inv by (simp add: comp_def)
  ultimately show ?thesis
    using inv build_groups_result [of body ev iter_num]
    by (simp add: aliases_names aliases_idb_num idb_count_def)
qed

text \<open>
  Claim C2 (a negated-atom variable with no match in the positive body is recorded in the
  negation map and left out of the anti-join map, without an error). For the positive body
  \<open>Edge(x, y)\<close> and the negated atom \<open>!Edge(x, w)\<close> the function raises \<open>KeyError\<close>: the
  resolver subscripts the index with \<open>w\<close> before the test for \<open>None\<close> of line 294 is
  reached.
\<close>

theorem extract_negation_map_unmatched_variable_raises:
  "extract_negation_map not_edge_xw (extract_variable_arg_to_atom_map edge_xy)
   = Inl (KeyError ''w'')"
  by (simp add: extract_edge_xy' not_edge_xw_def extract_negation_map_def build_negation_map_def
      anti_join_step_def search_argument_mapping_in_body_atoms_def mk_atom_def var_def upt_rec)

text \<open>
  Claim C3 (the resolver returns "not found" for a name that is not a key of the index).
  On the index of the body \<open>Edge(x, y)\<close> the lookup of the absent name \<open>w\<close> raises
  \<open>KeyError\<close>: it does not return \<open>None\<close>.
\<close>

theorem search_absent_name_raises:
  "search_argument_mapping_in_body_atoms (extract_variable_arg_to_atom_map edge_xy) ''w''
   = Inl (KeyError ''w'')"
  by (simp add: extract_edge_xy' search_argument_mapping_in_body_atoms_def)

text \<open>
  Claim C4: over the index of a body, for comparisons that keep the parser's contract
  (operands tagged \<open>var\<close> name variables of the positive body, operands tagged \<open>num\<close> are
  accepted by \<open>float\<close>), the validation error is raised if and only if some comparison
  has no variable operand; the loop body raises it for such a comparison whatever map has
  been built so far, before any update; and when there is no such comparison a map is
  returned that holds, for every comparison, its record at the position its base variable
  resolves to.
\<close>

theorem extract_comparison_map_validation:
  assumes "\<forall>c \<in> set cs. wf_comparison pyfloat body c"
  shows "((extract_comparison_map pyfloat cs (extract_variable_arg_to_atom_map body)
            = Inl validation_error) \<longleftrightarrow> (\<exists>c \<in> set cs. malformed c)) \<and>
         (\<forall>c cm0. malformed c \<longrightarrow>
            comparison_step pyfloat (extract_variable_arg_to_atom_map body) c cm0
              = Inl validation_error) \<and>
         ((\<forall>c \<in> set cs. \<not> malformed c) \<longrightarrow>
            (\<exists>cm. extract_comparison_map pyfloat cs (extract_variable_arg_to_atom_map body)
                    = Inr cm \<and>
                  (\<forall>c \<in> set cs. \<exists>p s.
                     search_and_subscript (extract_variable_arg_to_atom_map body) (base_var c)
                       = Inr p \<and>
                     build_comparison_struct pyfloat (extract_variable_arg_to_atom_map body)
                       (base_side c) (op c) (compare_arg c) (compare_arg_type c) = Inr s \<and>
                     s \<in> set (nested_get cm (atom_index p) (arg_index p)))))"
proof -
  let ?m = "extract_variable_arg_to_atom_map body"
  have rec: "if malformed c then comparison_record pyfloat ?m c = Inl validation_error
             else (\<exists>r. comparison_record pyfloat ?m c = Inr r)" if "c \<in> set cs" for c
    using assms that by (intro comparison_record_wf) simp
  have pre: "\<forall>c \<in> set cs. comparison_record pyfloat ?m c = Inl validation_error \<or>
               (\<exists>r. comparison_record pyfloat ?m c = Inr r)"
  proof
    fix c
    assume c: "c \<in> set cs"
    show "comparison_record pyfloat ?m c = Inl validation_error \<or>
            (\<exists>r. comparison_record pyfloat ?m c = Inr r)"
      using rec [OF c] by (cases "malformed c") simp_all
  qed
  have mal: "(\<exists>c \<in> set cs. comparison_record pyfloat ?m c = Inl validation_error) \<longleftrightarrow>
               (\<exists>c \<in> set cs. malformed c)"
  proof
    assume "\<exists>c \<in> set cs. comparison_record pyfloat ?m c = Inl validation_error"
    then obtain c where c: "c \<in> set cs" "comparison_record pyfloat ?m c = Inl validation_error"
      by blast
    have "malformed c"
    proof (rule ccontr)
      assume "\<not> malformed c"
      then have "\<exists>r. comparison_record pyfloat ?m c = Inr r" using rec [OF c(1)] by simp
      then show False using c(2) by auto
    qed
    then show "\<exists>c \<in> set cs. malformed c" using c(1) by blast
  next
    assume "\<exists>c \<in> set cs. malformed c"
    then obtain c where c: "c \<in> set cs" "malformed c" by blast
    then have "comparison_record pyfloat ?m c = Inl validation_error" using rec [OF c(1)] by simp
    then show "\<exists>c \<in> set cs. comparison_record pyfloat ?m c = Inl validation_error"
      using c(1) by blast
  qed
  note loop = comparison_loop_result [OF pre, of "[]"]
  have A: "(extract_comparison_map pyfloat cs ?m = Inl validation_error) \<longleftrightarrow>
             (\<exists>c \<in> set cs. malformed c)"
  proof (cases "\<exists>c \<in> set cs. malformed c")
    case True
    then show ?thesis using loop mal by (simp add: extract_comparison_map_def)
  next
    case False
    then have "\<exists>cm. fold_err (comparison_step pyfloat ?m) cs [] = Inr cm"
      using loop mal by simp
    then show ?thesis using False by (auto simp: extract_comparison_map_def)
  qed
  have B: "\<forall>c cm0. malformed c \<longrightarrow> comparison_step pyfloat ?m c cm0 = Inl validation_error"
    by (simp add: comparison_step_def malformed_def validation_error_def)
  have C: "(\<forall>c \<in> set cs. \<not> malformed c) \<longrightarrow>
            (\<exists>cm. extract_comparison_map pyfloat cs ?m = Inr cm \<and>
                  (\<forall>c \<in> set cs. \<exists>p s.
                     search_and_subscript ?m (base_var c) = Inr p \<and>
                     build_comparison_struct pyfloat ?m
                       (base_side c) (op c) (compare_arg c) (compare_arg_type c) = Inr s \<and>
                     s \<in> set (nested_get cm (atom_index p) (arg_index p))))"
  proof
    assume nm: "\<forall>c \<in> set cs. \<not> malformed c"
    then obtain cm where cm: "fold_err (comparison_step pyfloat ?m) cs [] = Inr cm"
      using loop mal by auto
    have "\<exists>p s. search_and_subscript ?m (base_var c) = Inr p \<and>
                 build_comparison_struct pyfloat ?m
                   (base_side c) (op c) (compare_arg c) (compare_arg_type c) = Inr s \<and>
                 s \<in> set (nested_get cm (atom_index p) (arg_index p))"
      if c: "c \<in> set cs" for c
    proof -
      from comparison_loop_records [OF cm] c obtain p s
        where r: "comparison_record pyfloat ?m c = Inr (p, s)"
          and s: "s \<in> set (nested_get cm (atom_index p) (arg_index p))"
        by blast
      from r have "search_and_subscript ?m (base_var c) = Inr p \<and>
                   build_comparison_struct pyfloat ?m
                     (base_side c) (op c) (compare_arg c) (compare_arg_type c) = Inr s"
        by (auto simp: comparison_record_def split: if_splits sum.splits)
      then show ?thesis using s by blast
    qed
    then show "\<exists>cm. extract_comparison_map pyfloat cs ?m = Inr cm \<and>
                  (\<forall>c \<in> set cs. \<exists>p s.
                     search_and_subscript ?m (base_var c) = Inr p \<and>
                     build_comparison_struct pyfloat ?m
                       (base_side c) (op c) (compare_arg c) (compare_arg_type c) = Inr s \<and>
                     s \<in> set (nested_get cm (atom_index p) (arg_index p)))"
      using cm by (auto simp: extract_comparison_map_def)
  qed
  show ?thesis using A B C by blast
qed

theorem extract_comparison_map_validation_witness:
  "wf_comparison digit_float edge_xy x_gt_5 \<and>
   wf_comparison digit_float edge_xy three_lt_5 \<and>
   malformed three_lt_5 \<and> \<not> malformed x_gt_5 \<and>
   extract_comparison_map digit_float [x_gt_5, three_lt_5]
     (extract_variable_arg_to_atom_map edge_xy) = Inl validation_error \<and>
   (\<exists>cm. extract_comparison_map digit_float [x_gt_5]
            (extract_variable_arg_to_atom_map edge_xy) = Inr cm)"
proof -
  have w1: "wf_comparison digit_float edge_xy x_gt_5"
    by (simp add: wf_comparison_def operand_ok_def x_gt_5_def digit_float_def
        body_var_names_edge_xy)
  have w2: "wf_comparison digit_float edge_xy three_lt_5"
    by (simp add: wf_comparison_def operand_ok_def three_lt_5_def digit_float_def)
  have m2: "malformed three_lt_5" by (simp add: malformed_def three_lt_5_def)
  have m1: "\<not> malformed x_gt_5" by (simp add: malformed_def x_gt_5_def)
  have h2: "\<forall>c \<in> set [x_gt_5, three_lt_5]. wf_comparison digit_float edge_xy c"
    using w1 w2 by simp
  have h1: "\<forall>c \<in> set [x_gt_5]. wf_comparison digit_float edge_xy c"
    using w1 by simp
  have "\<exists>c \<in> set [x_gt_5, three_lt_5]. malformed c" using m2 by simp
  with extract_comparison_map_validation [OF h2]
  have r2: "extract_comparison_map digit_float [x_gt_5, three_lt_5]
     (extract_variable_arg_to_atom_map edge_xy) = Inl validation_error"
    by blast
  have "\<forall>c \<in> set [x_gt_5]. \<not> malformed c" using m1 by simp
  with extract_comparison_map_validation [OF h1]
  have r1: "\<exists>cm. extract_comparison_map digit_float [x_gt_5]
            (extract_variable_arg_to_atom_map edge_xy) = Inr cm"
    by blast
  show ?thesis using w1 w2 m1 m2 r1 r2 by blast
qed

text \<open>
  Claim C5: for every index (a dict, so its keys are distinct) the join map sends a
  variable to the same occurrence mapping as the index when the mapping has more than one
  atom or an atom with more than one position, and has no entry for it otherwise. Over
  the index of a body, a variable is a key of the join map if and only if it occurs in
  more than one body atom or more than once in one atom, and the join map then holds the
  entry of the index.
\<close>

theorem extract_join_map_keys:
  "(distinct (map fst m) \<longrightarrow>
      map_of (extract_join_map m) v =
        (case map_of m v of
           None \<Rightarrow> None
         | Some d \<Rightarrow>
             if 1 < length d \<or> (\<exists>(atom_idx, positions) \<in> set d. 1 < length positions)
             then Some d else None)) \<and>
   (v \<in> fst ` set (extract_join_map (extract_variable_arg_to_atom_map body)) \<longleftrightarrow>
      1 < card {i. \<exists>j. is_occurrence body v i j} \<or>
      (\<exists>i. 1 < card {j. is_occurrence body v i j})) \<and>
   map_of (extract_join_map (extract_variable_arg_to_atom_map body)) v =
     (if v \<in> fst ` set (extract_join_map (extract_variable_arg_to_atom_map body))
      then map_of (extract_variable_arg_to_atom_map body) v else None)"
proof (intro conjI impI)
  assume "distinct (map fst m)"
  then show "map_of (extract_join_map m) v =
        (case map_of m v of
           None \<Rightarrow> None
         | Some d \<Rightarrow>
             if 1 < length d \<or> (\<exists>(atom_idx, positions) \<in> set d. 1 < length positions)
             then Some d else None)"
    by (simp add: map_of_extract_join_map join_on_var_def list_ex_iff split: option.splits)
next
  show "v \<in> fst ` set (extract_join_map (extract_variable_arg_to_atom_map body)) \<longleftrightarrow>
      1 < card {i. \<exists>j. is_occurrence body v i j} \<or>
      (\<exists>i. 1 < card {j. is_occurrence body v i j})"
    by (rule join_keys_body)
next
  let ?m = "extract_variable_arg_to_atom_map body"
  have "v \<in> fst ` set (extract_join_map ?m) \<longleftrightarrow> map_of (extract_join_map ?m) v \<noteq> None"
    by (simp add: map_of_eq_None_iff)
  then show "map_of (extract_join_map ?m) v =
     (if v \<in> fst ` set (extract_join_map ?m) then map_of ?m v else None)"
    by (auto simp: map_of_extract_join_map [OF extract_distinct] split: option.splits if_splits)
qed

theorem extract_join_map_keys_witness:
  "distinct (map fst (extract_variable_arg_to_atom_map edge_path)) \<and>
   extract_join_map (extract_variable_arg_to_atom_map edge_path) = [(''y'', [(0, [1]), (1, [0])])] \<and>
   map_of (extract_join_map (extract_variable_arg_to_atom_map edge_path)) ''y''
     = Some [(0, [1]), (1, [0])] \<and>
   map_of (extract_join_map (extract_variable_arg_to_atom_map edge_path)) ''x'' = None"
proof -
  have d: "distinct (map fst (extract_variable_arg_to_atom_map edge_path))"
    by (simp add: extract_edge_path)
  have j: "extract_join_map (extract_variable_arg_to_atom_map edge_path) =
             [(''y'', [(0, [1]), (1, [0])])]"
    by (simp add: extract_edge_path extract_join_map_def join_on_var_def)
  show ?thesis
    using extract_join_map_keys [of "extract_variable_arg_to_atom_map edge_path" "''y''" edge_path]
      extract_join_map_keys [of "extract_variable_arg_to_atom_map edge_path" "''x''" edge_path]
      d j
    by simp
qed

text \<open>
  Claim C6: for a name that is a key of the index of a body, the resolver returns a
  recorded occurrence of the name that is smallest by atom index and then by argument
  position among all recorded occurrences; the recorded occurrences are the occurrences
  of the variable in the body.
\<close>

theorem search_returns_first_occurrence:
  assumes "v \<in> fst ` set (extract_variable_arg_to_atom_map body)"
  shows "\<exists>p. search_argument_mapping_in_body_atoms (extract_variable_arg_to_atom_map body) v
               = Inr (Some p) \<and>
             recorded (extract_variable_arg_to_atom_map body) v (atom_index p) (arg_index p) \<and>
             (\<forall>i j. recorded (extract_variable_arg_to_atom_map body) v i j \<longrightarrow>
                atom_index p < i \<or> (atom_index p = i \<and> arg_index p \<le> j)) \<and>
             (\<forall>i j. recorded (extract_variable_arg_to_atom_map body) v i j =
                is_occurrence body v i j)"
proof -
  have "v \<in> body_var_names body" using assms by (simp add: extract_keys)
  from search_extract_first [OF this] show ?thesis
    by (simp add: recorded_extract)
qed

theorem search_returns_first_occurrence_witness:
  "''y'' \<in> fst ` set (extract_variable_arg_to_atom_map edge_path) \<and>
   search_argument_mapping_in_body_atoms (extract_variable_arg_to_atom_map edge_path) ''y''
     = Inr (Some \<lparr>atom_index = 0, arg_index = 1\<rparr>) \<and>
   recorded (extract_variable_arg_to_atom_map edge_path) ''y'' 0 1 \<and>
   recorded (extract_variable_arg_to_atom_map edge_path) ''y'' 1 0"
proof -
  have k: "''y'' \<in> fst ` set (extract_variable_arg_to_atom_map edge_path)"
    by (simp add: extract_edge_path)
  from search_returns_first_occurrence [OF k]
  obtain p where p: "search_argument_mapping_in_body_atoms
      (extract_variable_arg_to_atom_map edge_path) ''y'' = Inr (Some p)"
    and r: "recorded (extract_variable_arg_to_atom_map edge_path) ''y'' (atom_index p) (arg_index p)"
    by blast
  have "search_argument_mapping_in_body_atoms
      (extract_variable_arg_to_atom_map edge_path) ''y'' = Inr (Some \<lparr>atom_index = 0, arg_index = 1\<rparr>)"
    by (simp add: extract_edge_path search_argument_mapping_in_body_atoms_def)
  with p have pv: "p = \<lparr>atom_index = 0, arg_index = 1\<rparr>" by simp
  have r1: "recorded (extract_variable_arg_to_atom_map edge_path) ''y'' 0 1"
    using r by (simp add: pv)
  have r2: "recorded (extract_variable_arg_to_atom_map edge_path) ''y'' 1 0"
    by (simp add: recorded_def extract_edge_path)
  show ?thesis using k p pv r1 r2 by simp
qed

text \<open>
  Claim C7: the keys of the index are the names of the variable arguments of the body
  atoms, each once; a variable is mapped to its atoms in increasing order, every atom
  that holds it and no other, each with the non-empty list of its argument positions in
  increasing order; a body without variable arguments gives the empty index. The function
  takes the positive body only and cannot raise.
\<close>

theorem extract_variable_arg_to_atom_map_index:
  "fst ` set (extract_variable_arg_to_atom_map body) = body_var_names body \<and>
   distinct (map fst (extract_variable_arg_to_atom_map body)) \<and>
   map_of (extract_variable_arg_to_atom_map body) v =
     (if v \<in> body_var_names body then Some (var_occurrences v body) else None) \<and>
   sorted_wrt (<) (map fst (var_occurrences v body)) \<and>
   (\<forall>(i, ps) \<in> set (var_occurrences v body).
      i < length body \<and> ps \<noteq> [] \<and> sorted_wrt (<) ps \<and>
      set ps = {j. is_occurrence body v i j}) \<and>
   (\<forall>i j. is_occurrence body v i j \<longrightarrow> i \<in> fst ` set (var_occurrences v body)) \<and>
   (body_var_names body = {} \<longrightarrow> extract_variable_arg_to_atom_map body = [])"
proof (intro conjI)
  show "fst ` set (extract_variable_arg_to_atom_map body) = body_var_names body"
    by (rule extract_keys)
  show "distinct (map fst (extract_variable_arg_to_atom_map body))"
    by (rule extract_distinct)
  show "map_of (extract_variable_arg_to_atom_map body) v =
     (if v \<in> body_var_names body then Some (var_occurrences v body) else None)"
  proof (cases "v \<in> body_var_names body")
    case True
    then have "var_occurrences v body \<noteq> []" by (simp add: var_occurrences_nonempty_iff)
    then show ?thesis using True by (simp add: map_of_extract opt_of_def)
  next
    case False
    then have "var_occurrences v body = []"
      using var_occurrences_nonempty_iff [of v body] by blast
    then show ?thesis using False by (simp add: map_of_extract opt_of_def)
  qed
  show "sorted_wrt (<) (map fst (var_occurrences v body))"
    by (rule var_occurrences_sorted)
  show "\<forall>(i, ps) \<in> set (var_occurrences v body).
      i < length body \<and> ps \<noteq> [] \<and> sorted_wrt (<) ps \<and>
      set ps = {j. is_occurrence body v i j}"
  proof (clarify, intro conjI)
    fix i ps
    assume "(i, ps) \<in> set (var_occurrences v body)"
    then have e: "i < length body" "ps = var_positions v (arg_list (body ! i))" "ps \<noteq> []"
      by (auto simp: var_occurrences_entry)
    show "i < length body" "ps \<noteq> []" by (rule e)+
    show "sorted_wrt (<) ps" unfolding e(2) by (rule var_positions_sorted)
    show "set ps = {j. is_occurrence body v i j}"
      unfolding e(2) using var_positions_occurrence [OF e(1), of _ v] by auto
  qed
  show "\<forall>i j. is_occurrence body v i j \<longrightarrow> i \<in> fst ` set (var_occurrences v body)"
  proof (intro allI impI)
    fix i j
    assume o: "is_occurrence body v i j"
    then have i: "i < length body" by (simp add: is_occurrence_def)
    have "j \<in> set (var_positions v (arg_list (body ! i)))"
      using o var_positions_occurrence [OF i] by simp
    then have "(i, var_positions v (arg_list (body ! i))) \<in> set (var_occurrences v body)"
      using i by (auto simp: var_occurrences_entry)
    then show "i \<in> fst ` set (var_occurrences v body)" by force
  qed
  show "body_var_names body = {} \<longrightarrow> extract_variable_arg_to_atom_map body = []"
  proof
    assume "body_var_names body = {}"
    then have "fst ` set (extract_variable_arg_to_atom_map body) = {}"
      by (simp add: extract_keys)
    then show "extract_variable_arg_to_atom_map body = []" by simp
  qed
qed

theorem extract_variable_arg_to_atom_map_index_witness:
  "body_var_names [mk_atom ''T'' [const ''1'']] = {} \<and>
   extract_variable_arg_to_atom_map [mk_atom ''T'' [const ''1'']] = [] \<and>
   ''y'' \<in> body_var_names edge_path \<and>
   map_of (extract_variable_arg_to_atom_map edge_path) ''y'' = Some [(0, [1]), (1, [0])] \<and>
   var_occurrences ''y'' edge_path = [(0, [1]), (1, [0])] \<and>
   fst ` set (extract_variable_arg_to_atom_map edge_path) = {''x'', ''y'', ''z''}"
proof -
  have e: "body_var_names [mk_atom ''T'' [const ''1'']] = {}"
    by (simp add: body_var_names_def mk_atom_def const_def)
  have y: "''y'' \<in> body_var_names edge_path"
    by (simp add: body_var_names_edge_path)
  have m: "map_of (extract_variable_arg_to_atom_map edge_path) ''y'' = Some [(0, [1]), (1, [0])]"
    by (simp add: extract_edge_path)
  note t1 = extract_variable_arg_to_atom_map_index [of "[mk_atom ''T'' [const ''1'']]" "''y''"]
  note t2 = extract_variable_arg_to_atom_map_index [of edge_path "''y''"]
  from t1 e have a: "extract_variable_arg_to_atom_map [mk_atom ''T'' [const ''1'']] = []"
    by blast
  from t2 have "map_of (extract_variable_arg_to_atom_map edge_path) ''y'' =
     (if ''y'' \<in> body_var_names edge_path then Some (var_occurrences ''y'' edge_path) else None)"
    by blast
  then have occ: "var_occurrences ''y'' edge_path = [(0, [1]), (1, [0])]"
    using y m by simp
  from t2 have "fst ` set (extract_variable_arg_to_atom_map edge_path) = body_var_names edge_path"
    by blast
  then have c: "fst ` set (extract_variable_arg_to_atom_map edge_path) = {''x'', ''y'', ''z''}"
    by (simp only: body_var_names_edge_path)
  show ?thesis using e a y m occ c by blast
qed




text \<open>
  Claim C9: when a comparison with two variable operands is among the comparisons of a
  run that returns a map, the left operand is the base side: the map holds, at the
  position the left variable resolves to, the record with side \<open>l\<close>, the operator, and
  the position the right variable resolves to.
\<close>

theorem both_variables_left_is_base:
  assumes "extract_comparison_map pyfloat cs m = Inr cm"
    and "c \<in> set cs"
    and "snd (lhs c) = ''var''" and "snd (rhs c) = ''var''"
  shows "base_side c = ''l'' \<and>
         (\<exists>bl br.
            search_argument_mapping_in_body_atoms m (fst (lhs c)) = Inr (Some bl) \<and>
            search_argument_mapping_in_body_atoms m (fst (rhs c)) = Inr (Some br) \<and>
            \<lparr>base_variable_side = ''l'', compare_op = op c, other_side_type = ''var'',
             numerical_value = None, other_side_atom_index = Some (atom_index br),
             other_side_arg_index = Some (arg_index br)\<rparr>
              \<in> set (nested_get cm (atom_index bl) (arg_index bl)))"
proof -
  have cm: "fold_err (comparison_step pyfloat m) cs [] = Inr cm"
    using assms(1) by (simp add: extract_comparison_map_def)
  from comparison_loop_records [OF cm] assms(2) obtain p s
    where r: "comparison_record pyfloat m c = Inr (p, s)"
      and s: "s \<in> set (nested_get cm (atom_index p) (arg_index p))"
    by blast
  have bs: "base_side c = ''l''" "base_var c = fst (lhs c)" "compare_arg c = fst (rhs c)"
    "compare_arg_type c = ''var''"
    using assms(3,4) by (simp_all add: base_side_def base_var_def compare_arg_def
        compare_arg_type_def)
  from r have p: "search_and_subscript m (fst (lhs c)) = Inr p"
    and b: "build_comparison_struct pyfloat m ''l'' (op c) (fst (rhs c)) ''var'' = Inr s"
    by (auto simp: comparison_record_def bs split: if_splits sum.splits)
  from b obtain q where q: "search_and_subscript m (fst (rhs c)) = Inr q"
    and sv: "s = \<lparr>base_variable_side = ''l'', compare_op = op c, other_side_type = ''var'',
             numerical_value = None, other_side_atom_index = Some (atom_index q),
             other_side_arg_index = Some (arg_index q)\<rparr>"
    by (auto simp: build_comparison_struct_def split: sum.splits)
  have sp: "search_argument_mapping_in_body_atoms m (fst (lhs c)) = Inr (Some p)"
    using p by (auto simp: search_and_subscript_def split: sum.splits option.splits)
  have sq: "search_argument_mapping_in_body_atoms m (fst (rhs c)) = Inr (Some q)"
    using q by (auto simp: search_and_subscript_def split: sum.splits option.splits)
  show ?thesis using bs(1) sp sq s sv by blast
qed

theorem both_variables_left_is_base_witness:
  "extract_comparison_map digit_float [x_lt_y] (extract_variable_arg_to_atom_map edge_xy) =
     Inr [(0, [(0, [\<lparr>base_variable_side = ''l'', compare_op = ''<'', other_side_type = ''var'',
                      numerical_value = None, other_side_atom_index = Some 0,
                      other_side_arg_index = Some 1\<rparr>])])] \<and>
   snd (lhs x_lt_y) = ''var'' \<and> snd (rhs x_lt_y) = ''var'' \<and>
   base_side x_lt_y = ''l'' \<and>
   search_argument_mapping_in_body_atoms (extract_variable_arg_to_atom_map edge_xy)
     (fst (lhs x_lt_y)) = Inr (Some \<lparr>atom_index = 0, arg_index = 0\<rparr>) \<and>
   search_argument_mapping_in_body_atoms (extract_variable_arg_to_atom_map edge_xy)
     (fst (rhs x_lt_y)) = Inr (Some \<lparr>atom_index = 0, arg_index = 1\<rparr>)"
proof -
  have l: "snd (lhs x_lt_y) = ''var''" and r: "snd (rhs x_lt_y) = ''var''"
    by (simp_all add: x_lt_y_def)
  have i: "x_lt_y \<in> set [x_lt_y]" by simp
  from both_variables_left_is_base [OF comparison_x_lt_y i l r]
  have b: "base_side x_lt_y = ''l''" by blast
  have sl: "search_argument_mapping_in_body_atoms (extract_variable_arg_to_atom_map edge_xy)
     (fst (lhs x_lt_y)) = Inr (Some \<lparr>atom_index = 0, arg_index = 0\<rparr>)"
    by (simp add: x_lt_y_def extract_edge_xy' search_argument_mapping_in_body_atoms_def)
  have sr: "search_argument_mapping_in_body_atoms (extract_variable_arg_to_atom_map edge_xy)
     (fst (rhs x_lt_y)) = Inr (Some \<lparr>atom_index = 0, arg_index = 1\<rparr>)"
    by (simp add: x_lt_y_def extract_edge_xy' search_argument_mapping_in_body_atoms_def)
  show ?thesis using comparison_x_lt_y l r b sl sr by blast
qed

text \<open>
  Claim C10: every function of the module leaves the objects it is handed unchanged. For
  every store, every argument and every instance of the builtins, each of the eleven
  functions, started in a store \<open>h\<close>, ends (with a value or an exception) in a store whose
  first \<open>length h\<close> objects are \<open>h\<close>: the body atoms, the head, the comparisons, the index,
  the eval set and the alias map are objects of \<open>h\<close>, so they are equal before and after
  the call. The functions write only to objects they have created, or to copies made by
  \<open>deepcopy\<close>.
\<close>

theorem analysis_functions_keep_store:
  "unchanged_by (extract_variable_arg_to_atom_map_s b body_atoms) \<and>
   unchanged_by (search_s m var_name) \<and>
   unchanged_by (extract_selection_map_s b head m) \<and>
   unchanged_by (extract_join_map_s fuel m) \<and>
   unchanged_by (extract_comparison_map_s b fuel body_comparisons m) \<and>
   unchanged_by (extract_constant_constraint_map_s b body_atoms) \<and>
   unchanged_by (extract_negation_map_s b fuel body_negation_atoms m) \<and>
   unchanged_by (build_atom_aliases_s b fuel body_atoms) \<and>
   unchanged_by (build_negation_atom_aliases_s b fuel body_negation_atoms) \<and>
   unchanged_by (build_recursive_atom_aliases_s b fuel body_atoms eval_idbs iter_num) \<and>
   unchanged_by (build_recursive_atom_alias_groups_s b limit fuel body_atoms atom_aliases_map)"
  by (intro conjI unchanged_by_triple unchanged_by_grow
      extract_variable_arg_to_atom_map_triple grow_search extract_selection_map_triple
      extract_join_map_triple extract_comparison_map_triple
      extract_constant_constraint_map_triple extract_negation_map_triple
      build_atom_aliases_triple build_negation_atom_aliases_triple
      build_recursive_atom_aliases_triple build_recursive_atom_alias_groups_triple)

theorem analysis_functions_keep_store_witness:
  "kept_on (extract_variable_arg_to_atom_map_s example_builtins (VRef 5)) rule_store \<and>
   kept_on (search_s (VRef 7) (VStr ''y'')) rule_store \<and>
   kept_on (extract_selection_map_s example_builtins (VRef 3) (VRef 7)) rule_store \<and>
   kept_on (extract_join_map_s 10 (VRef 7)) rule_store \<and>
   kept_on (extract_comparison_map_s example_builtins 10 (VRef 15) (VRef 7)) rule_store \<and>
   kept_on (extract_constant_constraint_map_s example_builtins (VRef 5)) rule_store \<and>
   kept_on (extract_negation_map_s example_builtins 10 (VRef 5) (VRef 7)) rule_store \<and>
   kept_on (build_atom_aliases_s example_builtins 10 (VRef 5)) rule_store \<and>
   kept_on (build_negation_atom_aliases_s example_builtins 10 (VRef 5)) rule_store \<and>
   kept_on (build_recursive_atom_aliases_s example_builtins 10 (VRef 5) (VRef 6) (VInt 1))
     rule_store \<and>
   kept_on (build_recursive_atom_alias_groups_s example_builtins 10 10 (VRef 5) (VRef 22))
     rule_store"
  using analysis_functions_keep_store [of example_builtins "VRef 5" "VRef 7" "VStr ''y''"
      "VRef 3" 10 "VRef 15" "VRef 5" "VRef 6" "VInt 1" 10 "VRef 22"]
    returns_indexer returns_resolver returns_selection returns_join returns_comparison
    returns_constant returns_negation returns_aliases returns_negation_aliases
    returns_recursive_aliases returns_groups
  by (simp add: kept_onI)

end

